theory Spec2Isabelle
  imports Complex_Main
begin
section \<open>PreviewCache: the scrub cache of App.tsx\<close>

text \<open>
  The cache is a JavaScript \<^verbatim>\<open>Map<string, string[]>\<close>. A JavaScript Map iterates in
  insertion order, \<^verbatim>\<open>set\<close> on a key that is present replaces the value where the key
  stands, and \<^verbatim>\<open>set\<close> on an absent key appends. The map is therefore a list of
  key/value pairs, oldest first.
\<close>

type_synonym jsmap = "(string \<times> string list) list"

definition jsmap_keys :: "jsmap \<Rightarrow> string list" where
  "jsmap_keys m = map fst m"

definition jsmap_get :: "jsmap \<Rightarrow> string \<Rightarrow> string list option" where
  "jsmap_get m k = map_of m k"

definition jsmap_delete :: "jsmap \<Rightarrow> string \<Rightarrow> jsmap" where
  "jsmap_delete m k = filter (\<lambda>e. fst e \<noteq> k) m"

definition jsmap_set :: "jsmap \<Rightarrow> string \<Rightarrow> string list \<Rightarrow> jsmap" where
  "jsmap_set m k v =
     (if k \<in> set (jsmap_keys m)
      then map (\<lambda>e. if fst e = k then (k, v) else e) m
      else m @ [(k, v)])"

text \<open>\<^verbatim>\<open>const maxSize = 150\<close>\<close>

definition maxSize :: nat where
  "maxSize = 150"

text \<open>\<^verbatim>\<open>cache.keys().next().value\<close>: the first key in iteration order, undefined on an empty map.\<close>

definition oldestKey :: "jsmap \<Rightarrow> string option" where
  "oldestKey m = (case m of [] \<Rightarrow> None | e # _ \<Rightarrow> Some (fst e))"

text \<open>
  \<^verbatim>\<open>get\<close>: a hit deletes the key and sets it again, which moves it to the end. The
  item is an array, and every array is truthy, so the test \<^verbatim>\<open>if (item)\<close> is the test
  for presence.
\<close>

definition scrubCache_get :: "string \<Rightarrow> jsmap \<Rightarrow> string list option \<times> jsmap" where
  "scrubCache_get k cache =
     (case jsmap_get cache k of
        None \<Rightarrow> (None, cache)
      | Some item \<Rightarrow> (Some item, jsmap_set (jsmap_delete cache k) k item))"

text \<open>The first statement of \<^verbatim>\<open>set\<close>: at capacity the first key of the map is deleted.\<close>

definition evictOldest :: "jsmap \<Rightarrow> jsmap" where
  "evictOldest cache =
     (if maxSize \<le> length cache
      then (case oldestKey cache of None \<Rightarrow> cache | Some old \<Rightarrow> jsmap_delete cache old)
      else cache)"

definition scrubCache_set :: "string \<Rightarrow> string list \<Rightarrow> jsmap \<Rightarrow> jsmap" where
  "scrubCache_set k v cache = jsmap_set (evictOldest cache) k v"

definition scrubCache_delete :: "string \<Rightarrow> jsmap \<Rightarrow> jsmap" where
  "scrubCache_delete k cache = jsmap_delete cache k"

definition scrubCache_clear :: "jsmap \<Rightarrow> jsmap" where
  "scrubCache_clear cache = []"

text \<open>Interleavings of the four operations, run from left to right.\<close>

datatype cache_op = OpGet string | OpSet string "string list" | OpDelete string | OpClear

fun apply_op :: "cache_op \<Rightarrow> jsmap \<Rightarrow> jsmap" where
  "apply_op (OpGet k) cache = snd (scrubCache_get k cache)"
| "apply_op (OpSet k v) cache = scrubCache_set k v cache"
| "apply_op (OpDelete k) cache = scrubCache_delete k cache"
| "apply_op OpClear cache = scrubCache_clear cache"

fun run_ops :: "cache_op list \<Rightarrow> jsmap \<Rightarrow> jsmap" where
  "run_ops [] cache = cache"
| "run_ops (x # xs) cache = run_ops xs (apply_op x cache)"

text \<open>
  Recency. Every operation of a trace has a position, counted from one, and an operation
  may count for one key; the stamp of a key is the position of the last operation that
  counted for it, and zero when there is none. Which operations count is a parameter:
  two readings of "accessed" follow.
\<close>

fun stamps ::
  "(cache_op \<Rightarrow> jsmap \<Rightarrow> string option) \<Rightarrow> cache_op list \<Rightarrow> jsmap \<Rightarrow> nat
     \<Rightarrow> (string \<Rightarrow> nat) \<Rightarrow> (string \<Rightarrow> nat)" where
  "stamps count [] cache t s = s"
| "stamps count (x # xs) cache t s =
     stamps count xs (apply_op x cache) (Suc t)
       (case count x cache of None \<Rightarrow> s | Some k \<Rightarrow> s(k := Suc t))"

text \<open>
  The reading of the specification: \<^verbatim>\<open>get\<close> of a key that is present and every
  \<^verbatim>\<open>set\<close> are accesses of their key ("\<^verbatim>\<open>set\<close> inserts/overwrites").
\<close>

fun accessed_key :: "cache_op \<Rightarrow> jsmap \<Rightarrow> string option" where
  "accessed_key (OpGet k) cache = (if k \<in> set (jsmap_keys cache) then Some k else None)"
| "accessed_key (OpSet k v) cache = Some k"
| "accessed_key (OpDelete k) cache = None"
| "accessed_key OpClear cache = None"

definition last_access :: "cache_op list \<Rightarrow> string \<Rightarrow> nat" where
  "last_access ops k = stamps accessed_key ops [] 0 (\<lambda>_. 0) k"

text \<open>
  The narrower reading under which the cache is a least-recently-used cache: a
  \<^verbatim>\<open>get\<close> of a key that is present, and a \<^verbatim>\<open>set\<close> that inserts its key, which is
  every \<^verbatim>\<open>set\<close> but the one that overwrites an entry where it stands (the key is
  present, and it is not the oldest key of a cache at capacity).
\<close>

fun used_key :: "cache_op \<Rightarrow> jsmap \<Rightarrow> string option" where
  "used_key (OpGet k) cache = (if k \<in> set (jsmap_keys cache) then Some k else None)"
| "used_key (OpSet k v) cache =
     (if k \<in> set (jsmap_keys cache) \<and> \<not> (maxSize \<le> length cache \<and> oldestKey cache = Some k)
      then None else Some k)"
| "used_key (OpDelete k) cache = None"
| "used_key OpClear cache = None"

definition last_use :: "cache_op list \<Rightarrow> string \<Rightarrow> nat" where
  "last_use ops k = stamps used_key ops [] 0 (\<lambda>_. 0) k"

text \<open>Keys used by the concrete traces below.\<close>

definition key_of :: "nat \<Rightarrow> string" where
  "key_of n = replicate (Suc n) (CHR ''k'')"

definition fill_ops :: "nat \<Rightarrow> cache_op list" where
  "fill_ops n = map (\<lambda>i. OpSet (key_of i) []) [0..<n]"

text \<open>The state after the first \<open>b\<close> keys from \<open>a\<close> on have been set in order.\<close>

definition fill_state :: "nat \<Rightarrow> nat \<Rightarrow> jsmap" where
  "fill_state a b = map (\<lambda>i. (key_of i, [])) [a..<b]"

text \<open>
  The invariant that ties the order of the map to the trace: the keys are distinct, they
  stand in increasing order of their last use, and no stamp is beyond the clock \<open>t\<close>.
\<close>

definition kinv :: "string list \<Rightarrow> nat \<Rightarrow> (string \<Rightarrow> nat) \<Rightarrow> bool" where
  "kinv ks t s = (distinct ks \<and> sorted_wrt (\<lambda>a b. s a < s b) ks \<and> (\<forall>k\<in>set ks. s k \<le> t))"


section \<open>Library records (types.ts)\<close>

text \<open>
  \<^verbatim>\<open>interface VideoData\<close>. JavaScript numbers are modelled as \<open>int\<close> where the
  program stores counts, sizes and millisecond timestamps, and as \<open>real\<close> for the two
  durations in seconds; NaN is not modelled. A field declared optional (\<open>?\<close>) or
  nullable is an \<open>option\<close>, with \<open>None\<close> for undefined, null and absent alike. The
  field \<^verbatim>\<open>id\<close> is named \<open>id'\<close> because \<open>id\<close> is the identity function of HOL.
\<close>

record VideoData =
  id' :: string
  relativePath :: string
  thumbnail :: "string option"
  description :: string
  rating :: int
  seen :: bool
  tags :: "string list"
  fileSize :: int
  duration :: "real option"
  lastModified :: int
  isPlayable :: bool
  timesOpened :: int
  dateAdded :: int
  hearted :: "bool option"
  hidden :: "bool option"
  deleted :: "bool option"
  title :: "string option"
  contentHash :: "string option"
  currentTime :: "real option"
  notFound :: "bool option"

text \<open>The JavaScript operator \<^verbatim>\<open>||\<close> at the types the program uses it at.\<close>

definition truthy :: "bool option \<Rightarrow> bool" where
  "truthy b = (b = Some True)"

definition or_false :: "bool option \<Rightarrow> bool option" where
  \<comment> \<open>\<^verbatim>\<open>b || false\<close>\<close>
  "or_false b = Some (truthy b)"

definition or_num :: "int \<Rightarrow> int \<Rightarrow> int" where
  \<comment> \<open>\<^verbatim>\<open>a || b\<close> on numbers: zero is falsy\<close>
  "or_num a b = (if a = 0 then b else a)"

definition or_null :: "real option \<Rightarrow> real option" where
  \<comment> \<open>\<^verbatim>\<open>d || null\<close>: a zero duration counts as unknown\<close>
  "or_null d = (case d of None \<Rightarrow> None | Some x \<Rightarrow> if x = 0 then None else Some x)"

definition or_string :: "string \<Rightarrow> string \<Rightarrow> string" where
  \<comment> \<open>\<^verbatim>\<open>s || t\<close> on strings: the empty string is falsy\<close>
  "or_string s t = (if s = [] then t else s)"

definition or_null_string :: "string option \<Rightarrow> string option" where
  \<comment> \<open>\<^verbatim>\<open>s || null\<close> on an optional string\<close>
  "or_null_string s = (case s of None \<Rightarrow> None | Some x \<Rightarrow> if x = [] then None else Some x)"

section \<open>PersistentStore (dbService.ts)\<close>

text \<open>
  Three object stores. \<open>VIDEOS\<close> has the key path \<^verbatim>\<open>id\<close> and a unique index on
  \<^verbatim>\<open>relativePath\<close>; it is a list of the stored objects, which \<^verbatim>\<open>getAll\<close> returns (IndexedDB
  returns them in key order; no statement below depends on the order). The two thumbnail
  stores are keyed by \<^verbatim>\<open>videoId\<close>. A stored object has no \<^verbatim>\<open>thumbnail\<close> property; it
  is a \<open>VideoData\<close> whose \<open>thumbnail\<close> is \<open>None\<close>. Numeric and boolean properties that
  an object of an older schema lacks are read as the value their default stands for.
\<close>

record IDB =
  VIDEOS :: "VideoData list"
  MAIN_THUMBNAILS :: "string \<rightharpoonup> string"
  TIMELINE_THUMBNAILS :: "string \<rightharpoonup> string list"

datatype db_error = UpsertTransactionFailed | BatchUpdateTransactionFailed

text \<open>
  \<^verbatim>\<open>store.put\<close>: the object replaces the stored object of the same key, or is added.
  The request fails with a ConstraintError, which aborts the transaction, when another
  object already holds the same \<^verbatim>\<open>relativePath\<close>.
\<close>

definition index_conflict :: "VideoData list \<Rightarrow> VideoData \<Rightarrow> bool" where
  "index_conflict s v = (\<exists>r\<in>set s. id' r \<noteq> id' v \<and> relativePath r = relativePath v)"

definition store_put :: "VideoData \<Rightarrow> VideoData list \<Rightarrow> VideoData list option" where
  "store_put v s =
     (if index_conflict s v then None
      else if id' v \<in> id' ` set s then Some (map (\<lambda>r. if id' r = id' v then v else r) s)
      else Some (s @ [v]))"

fun put_all :: "VideoData list \<Rightarrow> VideoData list \<Rightarrow> VideoData list option" where
  "put_all [] s = Some s"
| "put_all (v # vs) s = (case store_put v s of None \<Rightarrow> None | Some s' \<Rightarrow> put_all vs s')"

text \<open>\<^verbatim>\<open>const { thumbnail, ...videoMetadata } = video\<close>\<close>

definition videoMetadata :: "VideoData \<Rightarrow> VideoData" where
  "videoMetadata video = video\<lparr>thumbnail := None\<rparr>"

definition applyVideoDefaults :: "VideoData \<Rightarrow> VideoData" where
  "applyVideoDefaults video = video
     \<lparr> thumbnail := None,
       timesOpened := or_num (timesOpened video) 0,
       dateAdded := or_num (or_num (dateAdded video) (lastModified video)) 0,
       hearted := or_false (hearted video),
       hidden := or_false (hidden video),
       contentHash := or_null_string (contentHash video),
       notFound := or_false (notFound video) \<rparr>"

definition upsertVideo :: "VideoData \<Rightarrow> IDB \<Rightarrow> db_error + IDB" where
  "upsertVideo video db =
     (case store_put (videoMetadata video) (VIDEOS db) of
        None \<Rightarrow> Inl UpsertTransactionFailed
      | Some vs \<Rightarrow>
          Inr (db\<lparr> VIDEOS := vs,
                   MAIN_THUMBNAILS :=
                     (case thumbnail video of
                        None \<Rightarrow> MAIN_THUMBNAILS db
                      | Some t \<Rightarrow> (MAIN_THUMBNAILS db)(id' video \<mapsto> t)) \<rparr>))"

definition updateVideo :: "VideoData \<Rightarrow> IDB \<Rightarrow> db_error + IDB" where
  "updateVideo video db = upsertVideo video db"

definition batchUpdateVideos :: "VideoData list \<Rightarrow> IDB \<Rightarrow> db_error + IDB" where
  "batchUpdateVideos vs db =
     (if vs = [] then Inr db
      else (case put_all (map videoMetadata vs) (VIDEOS db) of
              None \<Rightarrow> Inl BatchUpdateTransactionFailed
            | Some s \<Rightarrow> Inr (db\<lparr>VIDEOS := s\<rparr>)))"

definition deleteTimelineThumbnails :: "string \<Rightarrow> IDB \<Rightarrow> IDB" where
  "deleteTimelineThumbnails videoId db =
     db\<lparr>TIMELINE_THUMBNAILS := (TIMELINE_THUMBNAILS db)(videoId := None)\<rparr>"

definition getAllVideos :: "IDB \<Rightarrow> VideoData list" where
  "getAllVideos db = map applyVideoDefaults (VIDEOS db)"

definition getAllMainThumbnails :: "IDB \<Rightarrow> (string \<rightharpoonup> string)" where
  "getAllMainThumbnails db = MAIN_THUMBNAILS db"

text \<open>The store a rejected transaction leaves behind is the store before it.\<close>

definition db_after :: "db_error + IDB \<Rightarrow> IDB \<Rightarrow> IDB" where
  "db_after r db = (case r of Inl _ \<Rightarrow> db | Inr db' \<Rightarrow> db')"

text \<open>A record used by the concrete instances below.\<close>

definition sample_video :: VideoData where
  "sample_video =
     \<lparr> id' = ''v1'', relativePath = ''lib/a.mp4'', thumbnail = None, description = '''',
       rating = 0, seen = False, tags = [], fileSize = 10, duration = None,
       lastModified = 5, isPlayable = True, timesOpened = 0, dateAdded = 7,
       hearted = Some False, hidden = Some False, deleted = None, title = None,
       contentHash = None, currentTime = None, notFound = Some False \<rparr>"

definition sample_db :: IDB where
  "sample_db =
     \<lparr> VIDEOS = [sample_video], MAIN_THUMBNAILS = [''v1'' \<mapsto> ''data:thumb''],
       TIMELINE_THUMBNAILS = Map.empty \<rparr>"

section \<open>Application state and handlers (App.tsx)\<close>

text \<open>The properties of a browser \<^verbatim>\<open>File\<close> that the program reads.\<close>

record File =
  webkitRelativePath :: string
  file_name :: string
  file_size :: int
  file_lastModified :: int

record HistoryEntry =
  videoId :: string
  state :: VideoData

type_synonym HistoryBatch = "HistoryEntry list"

datatype toast_type = ToastSuccess | ToastError | ToastInfo

text \<open>
  The React state and refs of \<^verbatim>\<open>App\<close> that the handlers below read or write, together
  with the database. \<open>fileMap\<close> is \<^verbatim>\<open>fileMapRef.current\<close>, a Map from relative path to
  File, as an association list.
\<close>

record App =
  videos :: "VideoData list"
  undoStack :: "HistoryBatch list"
  redoStack :: "HistoryBatch list"
  playlist :: "string list"
  toastMessage :: string
  toastType :: toast_type
  isFolderSelected :: bool
  isBatchEditMode :: bool
  db :: IDB
  scrubCache :: jsmap
  fileMap :: "(string \<times> File) list"

datatype app_error = DbError db_error | ProbeException

definition showToast :: "string \<Rightarrow> toast_type \<Rightarrow> App \<Rightarrow> App" where
  "showToast message type a = a\<lparr>toastMessage := message, toastType := type\<rparr>"

text \<open>Decimal digits of a number, as a template literal prints it.\<close>

function string_of_nat :: "nat \<Rightarrow> string" where
  "string_of_nat n =
     (if n < 10 then [char_of (48 + n)]
      else string_of_nat (n div 10) @ [char_of (48 + n mod 10)])"
  by pat_completeness auto
termination
  by (relation "measure id") auto

declare string_of_nat.simps [simp del]

definition loadLibraryFromDB :: "App \<Rightarrow> App" where
  "loadLibraryFromDB a = a\<lparr>videos := getAllVideos (db a)\<rparr>"

text \<open>\<^verbatim>\<open>videos.find(v => v.id === x)\<close>\<close>

definition findById :: "VideoData list \<Rightarrow> string \<Rightarrow> VideoData option" where
  "findById vs x = find (\<lambda>v. id' v = x) vs"

text \<open>
  \<^verbatim>\<open>new Map(pairs)\<close> followed by \<^verbatim>\<open>prev.map(v => updatesMap.get(v.id) || v)\<close>: among
  pairs with the same key the last one wins, and a record object is always truthy.
\<close>

definition applyUpdatesMap :: "(string \<times> VideoData) list \<Rightarrow> VideoData list \<Rightarrow> VideoData list" where
  "applyUpdatesMap pairs prev =
     map (\<lambda>v. case map_of (rev pairs) (id' v) of Some u \<Rightarrow> u | None \<Rightarrow> v) prev"

subsection \<open>handleUpdateVideo\<close>

text \<open>
  \<^verbatim>\<open>updatedVideo.currentTime && updatedVideo.currentTime > 1 && !previousState.seen\<close>
\<close>

definition playedUnseen :: "VideoData \<Rightarrow> VideoData \<Rightarrow> bool" where
  "playedUnseen updatedVideo previousState =
     ((case currentTime updatedVideo of None \<Rightarrow> False | Some t \<Rightarrow> t \<noteq> 0 \<and> 1 < t)
      \<and> \<not> seen previousState)"

text \<open>
  The object \<^verbatim>\<open>changes\<close> of batch edit mode, as the list of its properties in the order
  they are assigned. The keys of \<^verbatim>\<open>updatedVideo\<close> are compared with \<^verbatim>\<open>previousState\<close>
  through \<^verbatim>\<open>JSON.stringify\<close>, here equality of the field, and ten keys are skipped:
  id, currentTime, timesOpened, relativePath, fileSize, duration, lastModified, dateAdded,
  isPlayable and notFound.
\<close>

datatype field_change =
    ChThumbnail "string option"
  | ChDescription string
  | ChRating int
  | ChSeen bool
  | ChTags "string list"
  | ChHearted "bool option"
  | ChHidden "bool option"
  | ChDeleted "bool option"
  | ChTitle "string option"
  | ChContentHash "string option"

definition changedFields :: "VideoData \<Rightarrow> VideoData \<Rightarrow> field_change list" where
  "changedFields previousState updatedVideo =
     (if thumbnail previousState \<noteq> thumbnail updatedVideo then [ChThumbnail (thumbnail updatedVideo)] else []) @
     (if description previousState \<noteq> description updatedVideo then [ChDescription (description updatedVideo)] else []) @
     (if rating previousState \<noteq> rating updatedVideo then [ChRating (rating updatedVideo)] else []) @
     (if seen previousState \<noteq> seen updatedVideo then [ChSeen (seen updatedVideo)] else []) @
     (if tags previousState \<noteq> tags updatedVideo then [ChTags (tags updatedVideo)] else []) @
     (if hearted previousState \<noteq> hearted updatedVideo then [ChHearted (hearted updatedVideo)] else []) @
     (if hidden previousState \<noteq> hidden updatedVideo then [ChHidden (hidden updatedVideo)] else []) @
     (if deleted previousState \<noteq> deleted updatedVideo then [ChDeleted (deleted updatedVideo)] else []) @
     (if title previousState \<noteq> title updatedVideo then [ChTitle (title updatedVideo)] else []) @
     (if contentHash previousState \<noteq> contentHash updatedVideo then [ChContentHash (contentHash updatedVideo)] else [])"

fun applyChange :: "field_change \<Rightarrow> VideoData \<Rightarrow> VideoData" where
  "applyChange (ChThumbnail x) v = v\<lparr>thumbnail := x\<rparr>"
| "applyChange (ChDescription x) v = v\<lparr>description := x\<rparr>"
| "applyChange (ChRating x) v = v\<lparr>rating := x\<rparr>"
| "applyChange (ChSeen x) v = v\<lparr>seen := x\<rparr>"
| "applyChange (ChTags x) v = v\<lparr>tags := x\<rparr>"
| "applyChange (ChHearted x) v = v\<lparr>hearted := x\<rparr>"
| "applyChange (ChHidden x) v = v\<lparr>hidden := x\<rparr>"
| "applyChange (ChDeleted x) v = v\<lparr>deleted := x\<rparr>"
| "applyChange (ChTitle x) v = v\<lparr>title := x\<rparr>"
| "applyChange (ChContentHash x) v = v\<lparr>contentHash := x\<rparr>"

text \<open>\<^verbatim>\<open>{ ...targetVideo, ...changes }\<close>\<close>

fun spreadChanges :: "VideoData \<Rightarrow> field_change list \<Rightarrow> VideoData" where
  "spreadChanges targetVideo [] = targetVideo"
| "spreadChanges targetVideo (c # cs) = spreadChanges (applyChange c targetVideo) cs"

text \<open>
  \<open>displayedVideos\<close> is the filtered and sorted view of \<open>videos\<close> that the component
  computes from the search box and the filters; the handler receives it as a parameter.
  The handler is asynchronous: when an awaited database call rejects, the statements
  after the await do not run, the state set before it stays, and the error is returned.
\<close>

definition handleUpdateVideo :: "VideoData list \<Rightarrow> VideoData \<Rightarrow> App \<Rightarrow> app_error option \<times> App" where
  "handleUpdateVideo displayedVideos updatedVideo a =
     (if isBatchEditMode a then
        (case findById (videos a) (id' updatedVideo) of
           None \<Rightarrow> (None, a)
         | Some previousState \<Rightarrow>
             (let changes = changedFields previousState updatedVideo @
                            (if playedUnseen updatedVideo previousState then [ChSeen True] else [])
              in if changes = [] then (None, a)
                 else
                   (let historyBatch = map (\<lambda>t. \<lparr>videoId = id' t, state = t\<rparr>) displayedVideos;
                        videosToUpdate = map (\<lambda>t. spreadChanges t changes) displayedVideos
                    in if videosToUpdate = [] then (None, a)
                       else
                         (case batchUpdateVideos videosToUpdate (db a) of
                            Inl e \<Rightarrow> (Some (DbError e), a)
                          | Inr db' \<Rightarrow>
                              (None,
                               showToast (''Applied changes to '' @ string_of_nat (length videosToUpdate) @ '' videos.'')
                                 ToastSuccess
                                 (a\<lparr> db := db',
                                     videos := applyUpdatesMap (map (\<lambda>v. (id' v, v)) videosToUpdate) (videos a),
                                     undoStack := undoStack a @ [historyBatch],
                                     redoStack := [] \<rparr>))))))
      else
        (let previousState = findById (videos a) (id' updatedVideo);
             updated = (case previousState of
                          None \<Rightarrow> updatedVideo
                        | Some p \<Rightarrow> if playedUnseen updatedVideo p then updatedVideo\<lparr>seen := True\<rparr>
                                     else updatedVideo);
             a1 = (case previousState of
                     None \<Rightarrow> a
                   | Some p \<Rightarrow>
                       if p \<noteq> updated
                       then a\<lparr> undoStack := undoStack a @ [[\<lparr>videoId = id' updated, state = p\<rparr>]],
                               redoStack := [] \<rparr>
                       else a)
         in (case updateVideo updated (db a1) of
               Inl e \<Rightarrow> (Some (DbError e), a1)
             | Inr db' \<Rightarrow>
                 (None, a1\<lparr> db := db',
                            videos := map (\<lambda>v. if id' v = id' updated then updated else v) (videos a1) \<rparr>))))"

subsection \<open>handleUndo and handleRedo\<close>

text \<open>
  \<^verbatim>\<open>lastActionBatch.map(change => ({ videoId, state: videos.find(...) })).filter(item => !!item.state)\<close>
\<close>

definition currentStates :: "HistoryBatch \<Rightarrow> VideoData list \<Rightarrow> HistoryBatch" where
  "currentStates lastActionBatch vs =
     concat (map (\<lambda>change. case findById vs (videoId change) of
                               None \<Rightarrow> []
                             | Some s \<Rightarrow> [\<lparr>videoId = videoId change, state = s\<rparr>])
                 lastActionBatch)"

definition handleUndo :: "App \<Rightarrow> app_error option \<times> App" where
  "handleUndo a =
     (if undoStack a = [] then (None, a)
      else
        (let newUndoStack = butlast (undoStack a);
             lastActionBatch = last (undoStack a);
             currentStatesForRedo = currentStates lastActionBatch (videos a);
             a1 = (if currentStatesForRedo \<noteq> []
                   then a\<lparr>redoStack := redoStack a @ [currentStatesForRedo]\<rparr> else a)
         in (case batchUpdateVideos (map state lastActionBatch) (db a1) of
               Inl e \<Rightarrow> (Some (DbError e), a1)
             | Inr db' \<Rightarrow>
                 (None, a1\<lparr> db := db',
                            videos := applyUpdatesMap (map (\<lambda>c. (videoId c, state c)) lastActionBatch) (videos a1),
                            undoStack := newUndoStack \<rparr>))))"

definition handleRedo :: "App \<Rightarrow> app_error option \<times> App" where
  "handleRedo a =
     (if redoStack a = [] then (None, a)
      else
        (let newRedoStack = butlast (redoStack a);
             lastActionBatch = last (redoStack a);
             currentStatesForUndo = currentStates lastActionBatch (videos a);
             a1 = (if currentStatesForUndo \<noteq> []
                   then a\<lparr>undoStack := undoStack a @ [currentStatesForUndo]\<rparr> else a)
         in (case batchUpdateVideos (map state lastActionBatch) (db a1) of
               Inl e \<Rightarrow> (Some (DbError e), a1)
             | Inr db' \<Rightarrow>
                 (None, a1\<lparr> db := db',
                            videos := applyUpdatesMap (map (\<lambda>c. (videoId c, state c)) lastActionBatch) (videos a1),
                            redoStack := newRedoStack \<rparr>))))"

subsection \<open>getFileForPlayback and handleRegenerateThumbnails\<close>

definition getFileForPlayback :: "VideoData \<Rightarrow> App \<Rightarrow> File option \<times> App" where
  "getFileForPlayback video a =
     (case map_of (fileMap a) (relativePath video) of
        Some file \<Rightarrow> (Some file, a)
      | None \<Rightarrow>
          (None,
           if fileMap a = []
           then (showToast ''Please select your video folder again to grant access.'' ToastInfo a)
                  \<lparr>isFolderSelected := False\<rparr>
           else showToast (''Could not load file: '' @ relativePath video @
                           ''. It may have been moved or deleted. Please re-select the folder.'')
                  ToastError a))"

text \<open>
  \<^verbatim>\<open>videoService.generateThumbnail\<close> belongs to the media probe, outside this model: it
  is a parameter that returns a frame, returns null, or throws.
\<close>

datatype probe_result = ProbeThrows | ProbeFrame "string option"

definition regenErrorMsg :: "VideoData \<Rightarrow> string" where
  "regenErrorMsg videoToRegen =
     ''Auto-regeneration failed for '' @ relativePath videoToRegen @ [CHR 0x0A] @
     ''File not available. Please re-select folder.''"

definition setDescription :: "string \<Rightarrow> string \<Rightarrow> VideoData list \<Rightarrow> VideoData list" where
  \<comment> \<open>\<^verbatim>\<open>prev.map(v => v.id === x ? { ...v, description: d } : v)\<close>\<close>
  "setDescription x d prev = map (\<lambda>v. if id' v = x then v\<lparr>description := d\<rparr> else v) prev"

definition handleRegenerateThumbnails ::
  "(File \<Rightarrow> probe_result) \<Rightarrow> VideoData \<Rightarrow> App \<Rightarrow> app_error option \<times> App" where
  "handleRegenerateThumbnails generateThumbnail videoToRegen a =
     (case getFileForPlayback videoToRegen a of
        (None, a1) \<Rightarrow>
          (None, a1\<lparr>videos := setDescription (id' videoToRegen) (regenErrorMsg videoToRegen) (videos a1)\<rparr>)
      | (Some file, a1) \<Rightarrow>
          (let a2 = a1\<lparr> db := deleteTimelineThumbnails (id' videoToRegen) (db a1),
                         scrubCache := scrubCache_delete (id' videoToRegen) (scrubCache a1) \<rparr>;
               a3 = a2\<lparr>videos := map (\<lambda>v. if id' v = id' videoToRegen
                                           then v\<lparr>description := ''Generating thumbnails...'', thumbnail := None\<rparr>
                                           else v) (videos a2)\<rparr>;
               failed = (\<lambda>e. let errorUpdate = videoToRegen\<lparr>description := ''Failed to regenerate thumbnail.''\<rparr>
                              in (case updateVideo errorUpdate (db a3) of
                                    Inl e' \<Rightarrow> (Some (DbError e'), a3)
                                  | Inr db' \<Rightarrow>
                                      (Some e, a3\<lparr> db := db',
                                                   videos := setDescription (id' videoToRegen)
                                                     ''Failed to regenerate thumbnail.'' (videos a3) \<rparr>)))
           in (case generateThumbnail file of
                 ProbeThrows \<Rightarrow> failed ProbeException
               | ProbeFrame frame \<Rightarrow>
                   (let updatedVideo = videoToRegen
                          \<lparr> thumbnail := frame,
                            description := (if frame \<noteq> None then '''' else ''Failed to regenerate thumbnail.''),
                            isPlayable := (frame \<noteq> None) \<rparr>
                    in (case updateVideo updatedVideo (db a3) of
                          Inl e \<Rightarrow> failed (DbError e)
                        | Inr db' \<Rightarrow> (None, loadLibraryFromDB (a3\<lparr>db := db'\<rparr>)))))))"

subsection \<open>handleImportPlaylist\<close>

text \<open>
  What \<^verbatim>\<open>JSON.parse\<close> returns. The parser is the runtime's: it is a parameter that
  returns a value or throws (\<open>None\<close>).
\<close>

datatype json =
    JNull
  | JBool bool
  | JNumber real
  | JString string
  | JArray "json list"
  | JObject "(string \<times> json) list"

text \<open>The file the user picked in the file dialog: none, one whose text cannot be read, or its text.\<close>

datatype picked_file = NoFile | UnreadableFile | FileText string

definition isString :: "json \<Rightarrow> bool" where
  \<comment> \<open>\<^verbatim>\<open>typeof id === 'string'\<close>\<close>
  "isString j = (case j of JString _ \<Rightarrow> True | _ \<Rightarrow> False)"

definition stringOf :: "json \<Rightarrow> string" where
  "stringOf j = (case j of JString s \<Rightarrow> s | _ \<Rightarrow> [])"

definition handleImportPlaylist :: "(string \<Rightarrow> json option) \<Rightarrow> picked_file \<Rightarrow> App \<Rightarrow> App" where
  "handleImportPlaylist JSON_parse picked a =
     (case picked of
        NoFile \<Rightarrow> a
      | UnreadableFile \<Rightarrow> showToast ''Failed to import playlist.'' ToastError a
      | FileText text \<Rightarrow>
          (case JSON_parse text of
             None \<Rightarrow> showToast ''Failed to import playlist.'' ToastError a
           | Some importedIds \<Rightarrow>
               (case importedIds of
                  JArray elems \<Rightarrow>
                    if list_all isString elems
                    then (let validIds = filter (\<lambda>x. \<exists>v\<in>set (videos a). id' v = x) (map stringOf elems)
                          in showToast (''Imported '' @ string_of_nat (length validIds) @ '' videos to playlist.'')
                               ToastSuccess (a\<lparr>playlist := validIds\<rparr>))
                    else showToast ''Invalid playlist file format.'' ToastError a
                | _ \<Rightarrow> showToast ''Invalid playlist file format.'' ToastError a)))"

text \<open>An application state used by the concrete instances below.\<close>

definition sample_video2 :: VideoData where
  "sample_video2 = sample_video\<lparr>id' := ''v2'', relativePath := ''lib/b.mp4''\<rparr>"

definition sample_app :: App where
  "sample_app =
     \<lparr> videos = [sample_video, sample_video2], undoStack = [], redoStack = [],
       playlist = [''v2''], toastMessage = '''', toastType = ToastInfo,
       isFolderSelected = True, isBatchEditMode = False,
       db = sample_db\<lparr>VIDEOS := [sample_video, sample_video2]\<rparr>,
       scrubCache = [(''v1'', [''f1''])], fileMap = [] \<rparr>"

text \<open>The sample application in batch edit mode.\<close>

definition batch_app :: App where
  "batch_app = sample_app\<lparr>isBatchEditMode := True\<rparr>"

section \<open>SyncEngine: scanFiles (App.tsx)\<close>

text \<open>
  \<^verbatim>\<open>toLowerCase\<close> on the ASCII letters (a \<open>char\<close> is a byte), \<^verbatim>\<open>endsWith\<close>, and the
  three tests the scan makes on a file name.
\<close>

definition toLowerCase :: "string \<Rightarrow> string" where
  "toLowerCase s =
     map (\<lambda>c. if 65 \<le> (of_char c :: nat) \<and> (of_char c :: nat) \<le> 90
              then char_of ((of_char c :: nat) + 32) else c) s"

definition endsWith :: "string \<Rightarrow> string \<Rightarrow> bool" where
  "endsWith s ext = (length ext \<le> length s \<and> drop (length s - length ext) s = ext)"

definition playableExtensions :: "string list" where
  "playableExtensions = [''.mp4'', ''.ogv'']"

definition isJpgName :: "string \<Rightarrow> bool" where
  \<comment> \<open>\<^verbatim>\<open>lowerCaseName.endsWith('.jpg')\<close>\<close>
  "isJpgName n = endsWith (toLowerCase n) ''.jpg''"

definition isNativelyPlayable :: "string \<Rightarrow> bool" where
  \<comment> \<open>\<^verbatim>\<open>playableExtensions.some(ext => lowerCaseName.endsWith(ext)) || !file.name.includes('.')\<close>\<close>
  "isNativelyPlayable n =
     ((\<exists>ext\<in>set playableExtensions. endsWith (toLowerCase n) ext) \<or> CHR ''.'' \<notin> set n)"

text \<open>
  \<^verbatim>\<open>crypto.randomUUID()\<close> and \<^verbatim>\<open>Date.now()\<close> are the environment's: they are
  parameters, indexed by the position of the file entry whose iteration calls them.
\<close>

record ScanEnv =
  randomUUID :: "nat \<Rightarrow> string"
  Date_now :: "nat \<Rightarrow> int"

text \<open>
  \<^verbatim>\<open>new Map(existingVideos.map(v => [v.relativePath, v]))\<close>: among records with the
  same path the last one wins.
\<close>

definition existingVideosMap :: "VideoData list \<Rightarrow> (string \<rightharpoonup> VideoData)" where
  "existingVideosMap existingVideos = map_of (rev (map (\<lambda>v. (relativePath v, v)) existingVideos))"

text \<open>
  The object literal \<^verbatim>\<open>videoData\<close> of the scan. \<open>existingVideo\<close> is the record found
  for the path, if any; \<^verbatim>\<open>existingVideo?.x || y\<close> is \<open>y\<close> when there is none.
\<close>

definition newVideoData :: "VideoData option \<Rightarrow> string \<Rightarrow> int \<Rightarrow> File \<Rightarrow> VideoData" where
  "newVideoData existingVideo uuid now file =
     \<lparr> id' = (case existingVideo of None \<Rightarrow> uuid | Some e \<Rightarrow> or_string (id' e) uuid),
       relativePath = webkitRelativePath file,
       thumbnail = None,
       description =
         (if isNativelyPlayable (file_name file) then ''Generating thumbnails...''
          else if isJpgName (file_name file) then ''JPG Image''
          else ''Incompatible file format.''),
       rating = (case existingVideo of None \<Rightarrow> 0 | Some e \<Rightarrow> or_num (rating e) 0),
       seen = (case existingVideo of None \<Rightarrow> False | Some e \<Rightarrow> seen e),
       tags = (case existingVideo of None \<Rightarrow> [] | Some e \<Rightarrow> tags e),
       fileSize = file_size file,
       duration = (case existingVideo of None \<Rightarrow> None | Some e \<Rightarrow> or_null (duration e)),
       lastModified = file_lastModified file,
       isPlayable = isNativelyPlayable (file_name file),
       timesOpened = (case existingVideo of None \<Rightarrow> 0 | Some e \<Rightarrow> or_num (timesOpened e) 0),
       dateAdded = (case existingVideo of None \<Rightarrow> now | Some e \<Rightarrow> or_num (dateAdded e) now),
       hearted = (case existingVideo of None \<Rightarrow> Some False | Some e \<Rightarrow> or_false (hearted e)),
       hidden = Some ((case existingVideo of None \<Rightarrow> False | Some e \<Rightarrow> truthy (hidden e))
                      \<or> isJpgName (file_name file)),
       deleted = (case existingVideo of None \<Rightarrow> Some False | Some e \<Rightarrow> or_false (deleted e)),
       title = (case existingVideo of None \<Rightarrow> None | Some e \<Rightarrow> title e),
       contentHash = None,
       currentTime = (case existingVideo of None \<Rightarrow> None | Some e \<Rightarrow> currentTime e),
       notFound = Some False \<rparr>"

text \<open>
  One iteration of the loop over the found files: what it pushes on
  \<^verbatim>\<open>videosToBatchUpdate\<close> and on \<^verbatim>\<open>videosForThumbGen\<close>.
\<close>

definition scanEntry ::
  "(string \<rightharpoonup> VideoData) \<Rightarrow> (string \<rightharpoonup> string) \<Rightarrow> string \<Rightarrow> int \<Rightarrow> File
     \<Rightarrow> VideoData list \<times> VideoData list" where
  "scanEntry existingMap existingThumbnails uuid now file =
     (let existingVideo = existingMap (webkitRelativePath file);
          isPlayable = isNativelyPlayable (file_name file);
          newDuration = (case existingVideo of None \<Rightarrow> None | Some e \<Rightarrow> or_null (duration e));
          changed = (case existingVideo of
                       None \<Rightarrow> True
                     | Some e \<Rightarrow> lastModified e \<noteq> file_lastModified file \<or> truthy (notFound e));
          missingThumb = (case existingVideo of
                            None \<Rightarrow> False
                          | Some e \<Rightarrow> isPlayable \<and> existingThumbnails (id' e) = None);
          needsUpdate = (changed \<or> missingThumb);
          needsThumbProcessing = (if changed then isPlayable else missingThumb)
      in if needsUpdate
         then ([newVideoData existingVideo uuid now file],
               if needsThumbProcessing then [newVideoData existingVideo uuid now file] else [])
         else (case existingVideo of
                 None \<Rightarrow> ([], [])
               | Some e \<Rightarrow>
                   if duration e \<noteq> newDuration \<and> newDuration \<noteq> None
                   then ([e\<lparr>duration := newDuration, notFound := Some False\<rparr>], [])
                   else ([], [])))"

text \<open>The condition \<^verbatim>\<open>needsUpdate\<close> of an iteration, as a function of what it reads.\<close>

definition needsUpdate :: "VideoData option \<Rightarrow> (string \<rightharpoonup> string) \<Rightarrow> File \<Rightarrow> bool" where
  "needsUpdate existingVideo existingThumbnails file =
     (case existingVideo of
        None \<Rightarrow> True
      | Some e \<Rightarrow> lastModified e \<noteq> file_lastModified file \<or> truthy (notFound e) \<or>
                  (isNativelyPlayable (file_name file) \<and> existingThumbnails (id' e) = None))"

fun scanLoop ::
  "(string \<rightharpoonup> VideoData) \<Rightarrow> (string \<rightharpoonup> string) \<Rightarrow> ScanEnv \<Rightarrow> nat \<Rightarrow> File list
     \<Rightarrow> VideoData list \<times> VideoData list" where
  "scanLoop existingMap existingThumbnails env i [] = ([], [])"
| "scanLoop existingMap existingThumbnails env i (file # files) =
     (fst (scanEntry existingMap existingThumbnails (randomUUID env i) (Date_now env i) file)
        @ fst (scanLoop existingMap existingThumbnails env (Suc i) files),
      snd (scanEntry existingMap existingThumbnails (randomUUID env i) (Date_now env i) file)
        @ snd (scanLoop existingMap existingThumbnails env (Suc i) files))"

text \<open>The second loop: records whose path was not found and that are not yet marked.\<close>

definition markNotFound :: "string list \<Rightarrow> VideoData list \<Rightarrow> VideoData list" where
  "markNotFound foundFilePaths existingVideos =
     concat (map (\<lambda>video. if relativePath video \<notin> set foundFilePaths \<and> \<not> truthy (notFound video)
                            then [video\<lparr>notFound := Some True\<rparr>] else [])
                 existingVideos)"

definition fileEntries :: "File list \<Rightarrow> File list" where
  \<comment> \<open>\<^verbatim>\<open>.filter(entry => entry.relativePath)\<close>\<close>
  "fileEntries files = filter (\<lambda>f. webkitRelativePath f \<noteq> []) files"

definition foundFilePaths :: "File list \<Rightarrow> string list" where
  "foundFilePaths files = map webkitRelativePath (fileEntries files)"

text \<open>The update plan of a pass that is not cancelled, and the records to process next.\<close>

definition videosToBatchUpdate :: "ScanEnv \<Rightarrow> File list \<Rightarrow> IDB \<Rightarrow> VideoData list" where
  "videosToBatchUpdate env files d =
     fst (scanLoop (existingVideosMap (getAllVideos d)) (getAllMainThumbnails d) env 0 (fileEntries files))
       @ markNotFound (foundFilePaths files) (getAllVideos d)"

definition videosForThumbGen :: "ScanEnv \<Rightarrow> File list \<Rightarrow> IDB \<Rightarrow> VideoData list" where
  "videosForThumbGen env files d =
     snd (scanLoop (existingVideosMap (getAllVideos d)) (getAllMainThumbnails d) env 0 (fileEntries files))"

text \<open>
  \<open>scanFiles\<close>. The cancel flag is reset when the pass starts and read at the head of
  the first loop, with no await between the two loops: it is one boolean. A cancelled
  pass writes nothing. Otherwise the plan goes to the database in one batch, and the
  pass returns the new database with the records that go on to thumbnail generation.
\<close>

definition scanFiles :: "ScanEnv \<Rightarrow> bool \<Rightarrow> File list \<Rightarrow> IDB \<Rightarrow> db_error + (IDB \<times> VideoData list)" where
  "scanFiles env cancelled files d =
     (if cancelled then Inr (d, [])
      else (case batchUpdateVideos (videosToBatchUpdate env files d) d of
              Inl e \<Rightarrow> Inl e
            | Inr d' \<Rightarrow> Inr (d', videosForThumbGen env files d)))"

definition db_after_scan :: "ScanEnv \<Rightarrow> bool \<Rightarrow> File list \<Rightarrow> IDB \<Rightarrow> IDB" where
  "db_after_scan env cancelled files d =
     (case scanFiles env cancelled files d of Inl _ \<Rightarrow> d | Inr r \<Rightarrow> fst r)"

text \<open>
  What the object store itself guarantees of its content (the key and the unique index),
  and what the program guarantees of the identifiers, all of which it draws from
  \<^verbatim>\<open>crypto.randomUUID()\<close>.
\<close>

definition wf_store :: "VideoData list \<Rightarrow> bool" where
  "wf_store s =
     (distinct (map id' s) \<and> distinct (map relativePath s) \<and> (\<forall>r\<in>set s. id' r \<noteq> []))"

definition fresh_env :: "ScanEnv \<Rightarrow> VideoData list \<Rightarrow> bool" where
  "fresh_env env s =
     (inj (randomUUID env) \<and> (\<forall>i. randomUUID env i \<noteq> [] \<and> randomUUID env i \<notin> id' ` set s)
      \<and> (\<forall>i. Date_now env i \<noteq> 0))"

text \<open>
  The precondition of a pass: a well-formed store, observed file entries with distinct
  paths (a path is unique within one observed set), and an environment whose identifiers
  are new and whose clock is not at zero.
\<close>

definition scan_pre :: "ScanEnv \<Rightarrow> File list \<Rightarrow> IDB \<Rightarrow> bool" where
  "scan_pre env files d =
     (wf_store (VIDEOS d) \<and> distinct (foundFilePaths files) \<and> fresh_env env (VIDEOS d))"

text \<open>
  The three ways a record comes to be in the plan: created for the file entry at
  position \<open>k\<close> whose path has no record, rewritten from the record \<open>x\<close> found for
  the file entry at position \<open>k\<close>, or the record \<open>x\<close> marked as not found.
\<close>

definition is_new :: "ScanEnv \<Rightarrow> File list \<Rightarrow> IDB \<Rightarrow> VideoData \<Rightarrow> nat \<Rightarrow> bool" where
  "is_new env files d w k =
     (k < length (fileEntries files) \<and>
      existingVideosMap (getAllVideos d) (webkitRelativePath (fileEntries files ! k)) = None \<and>
      w = newVideoData None (randomUUID env k) (Date_now env k) (fileEntries files ! k))"

definition is_upd :: "ScanEnv \<Rightarrow> File list \<Rightarrow> IDB \<Rightarrow> VideoData \<Rightarrow> nat \<Rightarrow> VideoData \<Rightarrow> bool" where
  "is_upd env files d w k x =
     (k < length (fileEntries files) \<and>
      existingVideosMap (getAllVideos d) (webkitRelativePath (fileEntries files ! k)) = Some x \<and>
      needsUpdate (Some x) (MAIN_THUMBNAILS d) (fileEntries files ! k) \<and>
      w = newVideoData (Some x) (randomUUID env k) (Date_now env k) (fileEntries files ! k))"

definition is_nf :: "File list \<Rightarrow> IDB \<Rightarrow> VideoData \<Rightarrow> VideoData \<Rightarrow> bool" where
  "is_nf files d w x =
     (x \<in> set (getAllVideos d) \<and> relativePath x \<notin> set (foundFilePaths files) \<and>
      \<not> truthy (notFound x) \<and> w = x\<lparr>notFound := Some True\<rparr>)"

text \<open>An environment, files and databases used by the concrete instances below.\<close>

definition sample_env :: ScanEnv where
  "sample_env = \<lparr> randomUUID = (\<lambda>i. replicate (Suc i) (CHR ''u'')), Date_now = (\<lambda>i. 1000 + int i) \<rparr>"

definition jpg_video :: VideoData where
  "jpg_video = sample_video
     \<lparr> id' := ''p1'', relativePath := ''lib/pic.jpg'', description := ''JPG Image'',
       isPlayable := False, hidden := Some False \<rparr>"

definition jpg_file :: File where
  "jpg_file = \<lparr> webkitRelativePath = ''lib/pic.jpg'', file_name = ''pic.jpg'',
                 file_size = 10, file_lastModified = 6 \<rparr>"

definition jpg_db :: IDB where
  "jpg_db = \<lparr> VIDEOS = [jpg_video], MAIN_THUMBNAILS = Map.empty, TIMELINE_THUMBNAILS = Map.empty \<rparr>"

text \<open>A library of two records: \<open>lib/a.mp4\<close>, and a picture that an earlier pass has marked
  as not found and that the user had unhidden. The picture is observed again, unchanged;
  \<open>lib/a.mp4\<close> is not.\<close>

definition lost_video :: VideoData where
  "lost_video = jpg_video\<lparr>notFound := Some True\<rparr>"

definition lost_file :: File where
  "lost_file = jpg_file\<lparr>file_lastModified := 5\<rparr>"

definition lost_db :: IDB where
  "lost_db = \<lparr> VIDEOS = [sample_video, lost_video], MAIN_THUMBNAILS = [''v1'' \<mapsto> ''data:thumb''],
               TIMELINE_THUMBNAILS = Map.empty \<rparr>"

text \<open>A video file that the library does not know yet, and the record a pass whose
  first identifier is \<open>u\<close> and whose clock reads 1000 creates for it.\<close>

definition new_file :: File where
  "new_file = \<lparr> webkitRelativePath = ''lib/b.mp4'', file_name = ''b.mp4'',
                 file_size = 3, file_lastModified = 9 \<rparr>"

definition new_video :: VideoData where
  "new_video =
     \<lparr> id' = ''u'', relativePath = ''lib/b.mp4'', thumbnail = None,
       description = ''Generating thumbnails...'', rating = 0, seen = False, tags = [],
       fileSize = 3, duration = None, lastModified = 9, isPlayable = True, timesOpened = 0,
       dateAdded = 1000, hearted = Some False, hidden = Some False, deleted = Some False,
       title = None, contentHash = None, currentTime = None, notFound = Some False \<rparr>"
section \<open>Proofs: PreviewCache\<close>

lemma keys_delete: "jsmap_keys (jsmap_delete m k) = filter (\<lambda>x. x \<noteq> k) (jsmap_keys m)"
  by (induction m) (auto simp: jsmap_keys_def jsmap_delete_def)

lemma keys_set: "jsmap_keys (jsmap_set m k v) = (if k \<in> set (jsmap_keys m) then jsmap_keys m else jsmap_keys m @ [k])"
  by (induction m) (auto simp: jsmap_keys_def jsmap_set_def)

lemma length_keys: "length (jsmap_keys m) = length m"
  by (simp add: jsmap_keys_def)

lemma length_delete_le: "length (jsmap_delete m k) \<le> length m"
  by (simp add: jsmap_delete_def)

lemma length_delete_less: "k \<in> set (jsmap_keys m) \<Longrightarrow> length (jsmap_delete m k) < length m"
  unfolding jsmap_delete_def jsmap_keys_def
  by (auto intro: length_filter_less)

lemma length_set_le: "length (jsmap_set m k v) \<le> Suc (length m)"
  by (simp add: jsmap_set_def)

lemma length_evict: "length m \<le> maxSize \<Longrightarrow> length (evictOldest m) < maxSize \<or> (maxSize = 0 \<and> m = [])"
  unfolding evictOldest_def oldestKey_def
  using length_delete_less[of "fst (hd m)" m]
  by (cases m) (auto simp: jsmap_keys_def)

lemma length_scrub_set: "length m \<le> maxSize \<Longrightarrow> length (scrubCache_set k v m) \<le> maxSize"
  using length_evict[of m] length_set_le[of "evictOldest m" k v]
  by (auto simp: scrubCache_set_def maxSize_def)

lemma map_of_keys: "map_of m k = Some v \<Longrightarrow> k \<in> set (jsmap_keys m)"
  by (induction m) (auto simp: jsmap_keys_def split: if_splits)

lemma length_scrub_get: "length (snd (scrubCache_get k m)) \<le> length m"
proof (cases "jsmap_get m k")
  case None
  then show ?thesis by (simp add: scrubCache_get_def)
next
  case (Some item)
  then have "k \<in> set (jsmap_keys m)" by (auto simp: jsmap_get_def dest: map_of_keys)
  then have "length (jsmap_delete m k) < length m" by (rule length_delete_less)
  moreover have "length (jsmap_set (jsmap_delete m k) k item) \<le> Suc (length (jsmap_delete m k))"
    by (rule length_set_le)
  ultimately show ?thesis using Some by (simp add: scrubCache_get_def)
qed

lemma length_apply_op: "length m \<le> maxSize \<Longrightarrow> length (apply_op x m) \<le> maxSize"
  using length_scrub_get[of k m for k] length_scrub_set[of m]
  by (cases x) (auto simp: scrubCache_delete_def scrubCache_clear_def intro: order_trans[OF length_scrub_get] order_trans[OF length_delete_le])

lemma length_run_ops: "length m \<le> maxSize \<Longrightarrow> length (run_ops xs m) \<le> maxSize"
  by (induction xs arbitrary: m) (auto simp: length_apply_op)



lemma kinv_filter: "kinv ks t s \<Longrightarrow> kinv (filter P ks) t s"
  by (auto simp: kinv_def sorted_wrt_filter)

lemma kinv_mono: "kinv ks t s \<Longrightarrow> kinv ks (Suc t) s"
  by (auto simp: kinv_def le_SucI)

lemma kinv_append: "kinv ks t s \<Longrightarrow> k \<notin> set ks \<Longrightarrow> kinv (ks @ [k]) (Suc t) (s(k := Suc t))"
proof -
  assume inv: "kinv ks t s" and k: "k \<notin> set ks"
  have "sorted_wrt (\<lambda>a b. (s(k := Suc t)) a < (s(k := Suc t)) b) ks"
    using inv k by (auto simp: kinv_def elim!: sorted_wrt_mono_rel[rotated])
  moreover have "\<forall>x\<in>set ks. (s(k := Suc t)) x < Suc t"
    using inv k by (auto simp: kinv_def less_Suc_eq_le)
  ultimately show ?thesis using inv k
    by (auto simp: kinv_def sorted_wrt_append le_SucI)
qed

lemma get_hit_iff: "(jsmap_get m k = None) = (k \<notin> set (jsmap_keys m))"
  by (simp add: jsmap_get_def jsmap_keys_def map_of_eq_None_iff)

lemma keys_evict:
  "jsmap_keys (evictOldest m) = (if maxSize \<le> length m then filter (\<lambda>x. Some x \<noteq> oldestKey m) (jsmap_keys m) else jsmap_keys m)"
  by (cases m) (auto simp: evictOldest_def oldestKey_def keys_delete[unfolded jsmap_keys_def] jsmap_keys_def)

lemma mem_evict:
  "(k \<in> set (jsmap_keys (evictOldest m))) =
   (k \<in> set (jsmap_keys m) \<and> \<not> (maxSize \<le> length m \<and> oldestKey m = Some k))"
  by (auto simp: keys_evict)

lemma kinv_evict: "kinv (jsmap_keys m) t s \<Longrightarrow> kinv (jsmap_keys (evictOldest m)) t s"
  by (simp add: keys_evict kinv_filter)

lemma kinv_step:
  assumes "kinv (jsmap_keys m) t s"
  shows "kinv (jsmap_keys (apply_op x m)) (Suc t) (case used_key x m of None \<Rightarrow> s | Some k \<Rightarrow> s(k := Suc t))"
proof (cases x)
  case (OpGet k)
  show ?thesis
  proof (cases "k \<in> set (jsmap_keys m)")
    case True
    then obtain item where item: "jsmap_get m k = Some item"
      using get_hit_iff[of m k] by auto
    have "kinv (filter (\<lambda>x. x \<noteq> k) (jsmap_keys m) @ [k]) (Suc t) (s(k := Suc t))"
      by (rule kinv_append) (use assms in \<open>auto intro: kinv_filter\<close>)
    then show ?thesis using True OpGet item
      by (simp add: scrubCache_get_def keys_set keys_delete)
  next
    case False
    then show ?thesis using OpGet assms get_hit_iff[of m k]
      by (simp add: scrubCache_get_def kinv_mono)
  qed
next
  case (OpSet k v)
  have ev: "kinv (jsmap_keys (evictOldest m)) t s" using assms by (rule kinv_evict)
  show ?thesis
  proof (cases "k \<in> set (jsmap_keys (evictOldest m))")
    case True
    then have "used_key (OpSet k v) m = None" by (simp add: mem_evict)
    then show ?thesis using OpSet ev True by (simp add: scrubCache_set_def keys_set kinv_mono)
  next
    case False
    then have "used_key (OpSet k v) m = Some k" by (simp add: mem_evict)
    then show ?thesis using OpSet kinv_append[OF ev False] False by (simp add: scrubCache_set_def keys_set)
  qed
next
  case (OpDelete k)
  then show ?thesis using assms by (simp add: scrubCache_delete_def keys_delete kinv_filter kinv_mono)
next
  case OpClear
  then show ?thesis by (simp add: scrubCache_clear_def kinv_def jsmap_keys_def)
qed

lemma kinv_run:
  "kinv (jsmap_keys m) t s \<Longrightarrow> \<exists>t'. kinv (jsmap_keys (run_ops xs m)) t' (stamps used_key xs m t s)"
proof (induction xs arbitrary: m t s)
  case Nil
  then show ?case by auto
next
  case (Cons x xs)
  from kinv_step[OF Cons.prems, of x] show ?case
    by (auto dest: Cons.IH)
qed

lemma recency_order:
  "sorted_wrt (\<lambda>a b. last_use xs a < last_use xs b) (jsmap_keys (run_ops xs []))"
proof -
  have "kinv (jsmap_keys []) 0 (\<lambda>_. 0)" by (simp add: kinv_def jsmap_keys_def)
  from kinv_run[OF this, of xs] show ?thesis
    by (auto simp: kinv_def last_use_def)
qed



lemma key_of_inj: "(key_of i = key_of j) = (i = j)"
  by (auto simp: key_of_def dest: arg_cong[where f = length])

lemma run_ops_append: "run_ops (xs @ ys) m = run_ops ys (run_ops xs m)"
  by (induction xs arbitrary: m) auto

lemma keys_fill_state: "jsmap_keys (fill_state a b) = map key_of [a..<b]"
  by (simp add: fill_state_def jsmap_keys_def comp_def)

lemma length_fill_state: "length (fill_state a b) = b - a"
  by (simp add: fill_state_def)

lemma key_in_fill_state: "(key_of j \<in> set (jsmap_keys (fill_state a b))) = (a \<le> j \<and> j < b)"
  by (auto simp: keys_fill_state key_of_inj)

lemma fill_state_Cons: "a < b \<Longrightarrow> fill_state a b = (key_of a, []) # fill_state (Suc a) b"
  by (simp add: fill_state_def upt_conv_Cons)

lemma fill_state_snoc: "a \<le> b \<Longrightarrow> fill_state a (Suc b) = fill_state a b @ [(key_of b, [])]"
  by (simp add: fill_state_def)

lemma delete_absent: "k \<notin> set (jsmap_keys m) \<Longrightarrow> jsmap_delete m k = m"
  by (induction m) (auto simp: jsmap_delete_def jsmap_keys_def)

lemma delete_head: "k \<notin> set (jsmap_keys m) \<Longrightarrow> jsmap_delete ((k, v) # m) k = m"
  using delete_absent[of k m] by (simp add: jsmap_delete_def)

lemma set_absent: "k \<notin> set (jsmap_keys m) \<Longrightarrow> jsmap_set m k v = m @ [(k, v)]"
  by (simp add: jsmap_set_def)

lemma run_fill_ops: "n \<le> maxSize \<Longrightarrow> run_ops (fill_ops n) [] = fill_state 0 n"
proof (induction n)
  case 0
  then show ?case by (simp add: fill_ops_def fill_state_def)
next
  case (Suc n)
  then have IH: "run_ops (fill_ops n) [] = fill_state 0 n" by simp
  have "fill_ops (Suc n) = fill_ops n @ [OpSet (key_of n) []]"
    by (simp add: fill_ops_def)
  moreover have "evictOldest (fill_state 0 n) = fill_state 0 n"
    using Suc.prems by (simp add: evictOldest_def length_fill_state)
  moreover have "key_of n \<notin> set (jsmap_keys (fill_state 0 n))"
    by (simp add: key_in_fill_state)
  ultimately show ?case
    by (simp add: run_ops_append IH scrubCache_set_def set_absent fill_state_snoc)
qed

lemma full_state: "run_ops (fill_ops 150) [] = (key_of 0, []) # fill_state (Suc 0) 150"
  using run_fill_ops[of 150] fill_state_Cons[of 0 150] by (simp add: maxSize_def)

lemma evict_full: "evictOldest ((key_of 0, []) # fill_state (Suc 0) 150) = fill_state (Suc 0) 150"
  by (simp add: evictOldest_def oldestKey_def maxSize_def length_fill_state delete_head key_in_fill_state)

lemma get_first_of_full:
  "run_ops (fill_ops 150 @ [OpGet (key_of 0)]) [] = fill_state (Suc 0) 150 @ [(key_of 0, [])]"
  by (simp add: run_ops_append full_state scrubCache_get_def jsmap_get_def delete_head
      key_in_fill_state set_absent)


lemma distinct_run: "distinct (jsmap_keys (run_ops xs []))"
proof -
  have "kinv (jsmap_keys []) 0 (\<lambda>_. 0)" by (simp add: kinv_def jsmap_keys_def)
  from kinv_run[OF this, of xs] show ?thesis by (auto simp: kinv_def)
qed

lemma evict_at_capacity:
  assumes "maxSize \<le> length m" "distinct (jsmap_keys m)"
  shows "\<exists>old rest. jsmap_keys m = old # rest \<and> oldestKey m = Some old \<and>
           evictOldest m = jsmap_delete m old \<and> jsmap_keys (evictOldest m) = rest"
proof (cases m)
  case Nil
  then show ?thesis using assms by (simp add: maxSize_def)
next
  case (Cons e m')
  obtain a b where e: "e = (a, b)" by (cases e)
  have "a \<notin> set (jsmap_keys m')" using assms Cons e by (simp add: jsmap_keys_def)
  then have "jsmap_delete ((a, b) # m') a = m'" by (rule delete_head)
  then show ?thesis using assms Cons e
    by (simp add: evictOldest_def oldestKey_def jsmap_keys_def)
qed

lemma set_present_head: "k \<notin> set (jsmap_keys m) \<Longrightarrow> jsmap_set ((k, w) # m) k v = (k, v) # m"
  by (induction m) (auto simp: jsmap_set_def jsmap_keys_def)

lemma keys_Cons: "jsmap_keys (e # m) = fst e # jsmap_keys m"
  by (simp add: jsmap_keys_def)

lemma keys_snoc: "jsmap_keys (m @ [e]) = jsmap_keys m @ [fst e]"
  by (simp add: jsmap_keys_def)

lemma set_first_of_full:
  "run_ops (fill_ops 150 @ [OpSet (key_of 0) v]) [] = fill_state (Suc 0) 150 @ [(key_of 0, v)]"
  by (simp add: run_ops_append full_state scrubCache_set_def evict_full set_absent key_in_fill_state)

lemma set_second_of_full:
  "run_ops (fill_ops 150 @ [OpSet (key_of (Suc 0)) v]) [] = (key_of (Suc 0), v) # fill_state (Suc (Suc 0)) 150"
proof -
  have "fill_state (Suc 0) 150 = (key_of (Suc 0), []) # fill_state (Suc (Suc 0)) 150"
    by (rule fill_state_Cons) simp
  moreover have "jsmap_set ((key_of (Suc 0), []) # fill_state (Suc (Suc 0)) 150) (key_of (Suc 0)) v
      = (key_of (Suc 0), v) # fill_state (Suc (Suc 0)) 150"
    by (rule set_present_head) (simp add: key_in_fill_state)
  ultimately have "jsmap_set (fill_state (Suc 0) 150) (key_of (Suc 0)) v
      = (key_of (Suc 0), v) # fill_state (Suc (Suc 0)) 150"
    by simp
  moreover have "run_ops (fill_ops 150 @ [OpSet (key_of (Suc 0)) v]) []
      = jsmap_set (fill_state (Suc 0) 150) (key_of (Suc 0)) v"
    by (simp add: run_ops_append full_state scrubCache_set_def evict_full)
  ultimately show ?thesis by simp
qed

lemma set_second_then_two:
  "run_ops (fill_ops 150 @ [OpSet (key_of (Suc 0)) v, OpSet (key_of 150) [], OpSet (key_of 151) []]) []
     = fill_state (Suc (Suc 0)) 150 @ [(key_of 150, []), (key_of 151, [])]"
proof -
  let ?s1 = "(key_of (Suc 0), v) # fill_state (Suc (Suc 0)) 150"
  let ?s2 = "(key_of (Suc 0), v) # fill_state (Suc (Suc 0)) 150 @ [(key_of 150, [])]"
  have a: "scrubCache_set (key_of 150) [] ?s1 = ?s2"
    by (simp add: scrubCache_set_def evictOldest_def maxSize_def length_fill_state set_absent
        keys_Cons key_in_fill_state key_of_inj)
  have "evictOldest ?s2 = fill_state (Suc (Suc 0)) 150 @ [(key_of 150, [])]"
    by (simp add: evictOldest_def maxSize_def length_fill_state oldestKey_def delete_head
        keys_snoc key_in_fill_state key_of_inj)
  then have b: "scrubCache_set (key_of 151) [] ?s2 = fill_state (Suc (Suc 0)) 150 @ [(key_of 150, []), (key_of 151, [])]"
    by (simp add: scrubCache_set_def set_absent keys_snoc key_in_fill_state key_of_inj)
  have "fill_ops 150 @ [OpSet (key_of (Suc 0)) v, OpSet (key_of 150) [], OpSet (key_of 151) []]
      = (fill_ops 150 @ [OpSet (key_of (Suc 0)) v]) @ [OpSet (key_of 150) [], OpSet (key_of 151) []]"
    by simp
  then show ?thesis
    by (simp only: run_ops_append[of "fill_ops 150 @ [OpSet (key_of (Suc 0)) v]"] set_second_of_full
        run_ops.simps apply_op.simps a b)
qed

lemma stamps_append:
  "stamps u (xs @ ys) m t s = stamps u ys (run_ops xs m) (t + length xs) (stamps u xs m t s)"
  by (induction xs arbitrary: m t s) auto

lemma last_use_snoc:
  "last_use (xs @ [x]) =
     (case used_key x (run_ops xs []) of None \<Rightarrow> last_use xs | Some k \<Rightarrow> (last_use xs)(k := Suc (length xs)))"
  by (rule ext) (simp add: last_use_def stamps_append split: option.splits)

lemma last_access_snoc:
  "last_access (xs @ [x]) =
     (case accessed_key x (run_ops xs []) of None \<Rightarrow> last_access xs
      | Some k \<Rightarrow> (last_access xs)(k := Suc (length xs)))"
  by (rule ext) (simp add: last_access_def stamps_append split: option.splits)

lemma length_fill_ops: "length (fill_ops n) = n"
  by (simp add: fill_ops_def)

lemma last_access_fill: "last_access (fill_ops n) (key_of j) = (if j < n then Suc j else 0)"
proof (induction n)
  case 0
  then show ?case by (simp add: fill_ops_def last_access_def)
next
  case (Suc n)
  have "fill_ops (Suc n) = fill_ops n @ [OpSet (key_of n) []]"
    by (simp add: fill_ops_def)
  then show ?case using Suc
    by (auto simp: last_access_snoc length_fill_ops key_of_inj)
qed

lemma evict_tl:
  assumes "maxSize \<le> length m" "distinct (jsmap_keys m)"
  shows "m \<noteq> [] \<and> evictOldest m = tl m \<and> oldestKey m = Some (fst (hd m)) \<and>
         jsmap_keys m = fst (hd m) # jsmap_keys (tl m)"
proof (cases m)
  case Nil
  then show ?thesis using assms by (simp add: maxSize_def)
next
  case (Cons e m')
  obtain a b where e: "e = (a, b)" by (cases e)
  have "a \<notin> set (jsmap_keys m')" using assms Cons e by (simp add: jsmap_keys_def)
  then have "jsmap_delete ((a, b) # m') a = m'" by (rule delete_head)
  then show ?thesis using assms Cons e
    by (simp add: evictOldest_def oldestKey_def jsmap_keys_def)
qed

lemma set_second_then_one:
  "run_ops (fill_ops 150 @ [OpSet (key_of (Suc 0)) v, OpSet (key_of 150) []]) []
     = (key_of (Suc 0), v) # fill_state (Suc (Suc 0)) 150 @ [(key_of 150, [])]"
proof -
  have a: "scrubCache_set (key_of 150) [] ((key_of (Suc 0), v) # fill_state (Suc (Suc 0)) 150)
             = (key_of (Suc 0), v) # fill_state (Suc (Suc 0)) 150 @ [(key_of 150, [])]"
    by (simp add: scrubCache_set_def evictOldest_def maxSize_def length_fill_state set_absent
        keys_Cons key_in_fill_state key_of_inj)
  have "fill_ops 150 @ [OpSet (key_of (Suc 0)) v, OpSet (key_of 150) []]
      = (fill_ops 150 @ [OpSet (key_of (Suc 0)) v]) @ [OpSet (key_of 150) []]"
    by simp
  then show ?thesis
    by (simp only: run_ops_append[of "fill_ops 150 @ [OpSet (key_of (Suc 0)) v]"] set_second_of_full
        run_ops.simps apply_op.simps a)
qed

text \<open>
  Claim C1 says that the entry evicted at capacity is the least recently accessed one.
  The specification counts \<^verbatim>\<open>set\<close> as an access ("inserts/overwrites"). After 150
  distinct keys have been set, the second key is set again and a further key is set:
  the cache is at capacity again, and the second key, written at position 151, stands
  first, before the third key whose only access is at position 3. The next insertion
  evicts the second key and keeps the third.
\<close>

theorem scrubCache_overwrite_is_no_access_counterexample:
  "length (run_ops (fill_ops 150 @ [OpSet (key_of 1) [''x''], OpSet (key_of 150) []]) []) = maxSize \<and>
   key_of 151 \<notin> set (jsmap_keys (run_ops (fill_ops 150 @ [OpSet (key_of 1) [''x''], OpSet (key_of 150) []]) [])) \<and>
   key_of 1 \<in> set (jsmap_keys (run_ops (fill_ops 150 @ [OpSet (key_of 1) [''x''], OpSet (key_of 150) []]) [])) \<and>
   key_of 2 \<in> set (jsmap_keys (run_ops (fill_ops 150 @ [OpSet (key_of 1) [''x''], OpSet (key_of 150) []]) [])) \<and>
   last_access (fill_ops 150 @ [OpSet (key_of 1) [''x''], OpSet (key_of 150) []]) (key_of 2) = 3 \<and>
   last_access (fill_ops 150 @ [OpSet (key_of 1) [''x''], OpSet (key_of 150) []]) (key_of 1) = 151 \<and>
   key_of 1 \<notin> set (jsmap_keys (run_ops
      (fill_ops 150 @ [OpSet (key_of 1) [''x''], OpSet (key_of 150) [], OpSet (key_of 151) []]) [])) \<and>
   key_of 2 \<in> set (jsmap_keys (run_ops
      (fill_ops 150 @ [OpSet (key_of 1) [''x''], OpSet (key_of 150) [], OpSet (key_of 151) []]) []))"
proof -
  let ?T = "fill_ops 150 @ [OpSet (key_of (Suc 0)) [''x''], OpSet (key_of 150) []]"
  have T: "?T = (fill_ops 150 @ [OpSet (key_of (Suc 0)) [''x'']]) @ [OpSet (key_of 150) []]" by simp
  have st: "run_ops ?T [] = (key_of (Suc 0), [''x'']) # fill_state (Suc (Suc 0)) 150 @ [(key_of 150, [])]"
    by (rule set_second_then_one)
  have 1: "length (run_ops ?T []) = maxSize" by (simp add: st length_fill_state maxSize_def)
  have 2: "key_of 151 \<notin> set (jsmap_keys (run_ops ?T []))"
    by (simp add: st keys_Cons keys_snoc key_in_fill_state key_of_inj)
  have 3: "key_of (Suc 0) \<in> set (jsmap_keys (run_ops ?T []))" by (simp add: st keys_Cons)
  have 4: "key_of 2 \<in> set (jsmap_keys (run_ops ?T []))"
    by (simp add: st keys_Cons keys_snoc key_in_fill_state numeral_2_eq_2)
  have 5: "last_access ?T (key_of 2) = 3"
    by (subst T) (simp add: last_access_snoc last_access_fill key_of_inj length_fill_ops del: append_assoc)
  have 6: "last_access ?T (key_of (Suc 0)) = 151"
    by (subst T) (simp add: last_access_snoc last_access_fill key_of_inj length_fill_ops del: append_assoc)
  have 7: "key_of (Suc 0) \<notin> set (jsmap_keys (run_ops
      (fill_ops 150 @ [OpSet (key_of (Suc 0)) [''x''], OpSet (key_of 150) [], OpSet (key_of 151) []]) []))"
    by (simp add: set_second_then_two jsmap_keys_def fill_state_def key_of_inj image_iff)
  have 8: "key_of 2 \<in> set (jsmap_keys (run_ops
      (fill_ops 150 @ [OpSet (key_of (Suc 0)) [''x''], OpSet (key_of 150) [], OpSet (key_of 151) []]) []))"
    by (simp add: set_second_then_two jsmap_keys_def fill_state_def key_of_inj image_iff)
  from 1 2 3 4 5 6 7 8 show ?thesis by simp
qed

text \<open>
  Claim C1, amended. For every interleaving of get, set, delete and clear, run from the
  empty cache, the cache never holds more than \<open>maxSize\<close> = 150 entries. When the cache
  is at capacity and a set inserts a key that is absent, the cache afterwards is the
  cache before without its first entry, followed by the new entry: the first key is
  evicted, every other key stays, and the last use of the evicted key is strictly
  earlier than the last use of every key that stays. A use is a get of a key that is
  present or a set that inserts its key; a set that overwrites an entry where it stands
  is not a use. A get of a key that is present moves the key to the most recent end and
  is its last use, and the keys always stand in the map in increasing order of last use.
\<close>

theorem scrubCache_bounded_lru:
  "length (run_ops ops []) \<le> maxSize \<and>
   (maxSize \<le> length (run_ops ops []) \<and> k \<notin> set (jsmap_keys (run_ops ops [])) \<longrightarrow>
      (\<exists>old. oldestKey (run_ops ops []) = Some old \<and> old \<in> set (jsmap_keys (run_ops ops [])) \<and>
         run_ops (ops @ [OpSet k v]) [] = tl (run_ops ops []) @ [(k, v)] \<and>
         old \<notin> set (jsmap_keys (run_ops (ops @ [OpSet k v]) [])) \<and>
         (\<forall>k'\<in>set (jsmap_keys (run_ops ops [])). k' \<noteq> old \<longrightarrow>
             k' \<in> set (jsmap_keys (run_ops (ops @ [OpSet k v]) [])) \<and>
             last_use ops old < last_use ops k') \<and>
         last_use (ops @ [OpSet k v]) k = Suc (length ops))) \<and>
   (k \<in> set (jsmap_keys (run_ops ops [])) \<longrightarrow>
      jsmap_keys (run_ops (ops @ [OpGet k]) []) = filter (\<lambda>x. x \<noteq> k) (jsmap_keys (run_ops ops [])) @ [k] \<and>
      last_use (ops @ [OpGet k]) k = Suc (length ops) \<and>
      (\<forall>k'. k' \<noteq> k \<longrightarrow> last_use (ops @ [OpGet k]) k' = last_use ops k')) \<and>
   sorted_wrt (\<lambda>a b. last_use ops a < last_use ops b) (jsmap_keys (run_ops ops []))"
proof -
  let ?c = "run_ops ops []"
  have bound: "length ?c \<le> maxSize" by (rule length_run_ops) simp
  have ord: "sorted_wrt (\<lambda>a b. last_use ops a < last_use ops b) (jsmap_keys ?c)"
    by (rule recency_order)
  have dist: "distinct (jsmap_keys ?c)" by (rule distinct_run)
  have ins: "\<exists>old. oldestKey ?c = Some old \<and> old \<in> set (jsmap_keys ?c) \<and>
         run_ops (ops @ [OpSet k v]) [] = tl ?c @ [(k, v)] \<and>
         old \<notin> set (jsmap_keys (run_ops (ops @ [OpSet k v]) [])) \<and>
         (\<forall>k'\<in>set (jsmap_keys ?c). k' \<noteq> old \<longrightarrow>
             k' \<in> set (jsmap_keys (run_ops (ops @ [OpSet k v]) [])) \<and>
             last_use ops old < last_use ops k') \<and>
         last_use (ops @ [OpSet k v]) k = Suc (length ops)"
    if full: "maxSize \<le> length ?c" and absent: "k \<notin> set (jsmap_keys ?c)"
  proof -
    let ?old = "fst (hd ?c)"
    from evict_tl[OF full dist] have ne: "?c \<noteq> []" and ev: "evictOldest ?c = tl ?c"
      and o: "oldestKey ?c = Some ?old" and ks: "jsmap_keys ?c = ?old # jsmap_keys (tl ?c)"
      by simp_all
    have kt: "k \<notin> set (jsmap_keys (tl ?c))" using absent ks by simp
    have ot: "?old \<notin> set (jsmap_keys (tl ?c))" using dist ks by (metis distinct.simps(2))
    have ok: "?old \<noteq> k" using absent ks by (metis list.set_intros(1))
    have st: "run_ops (ops @ [OpSet k v]) [] = tl ?c @ [(k, v)]"
      using kt by (simp add: run_ops_append scrubCache_set_def ev set_absent)
    have om: "?old \<in> set (jsmap_keys ?c)" using ks by (metis list.set_intros(1))
    have gone: "?old \<notin> set (jsmap_keys (run_ops (ops @ [OpSet k v]) []))"
      using ot ok by (simp add: st keys_snoc)
    have stay: "k' \<in> set (jsmap_keys (run_ops (ops @ [OpSet k v]) [])) \<and> last_use ops ?old < last_use ops k'"
      if "k' \<in> set (jsmap_keys ?c)" "k' \<noteq> ?old" for k'
    proof -
      have m: "k' \<in> set (jsmap_keys (tl ?c))" using that ks by (metis set_ConsD)
      have "sorted_wrt (\<lambda>a b. last_use ops a < last_use ops b) (?old # jsmap_keys (tl ?c))"
        using ord ks by simp
      then have "last_use ops ?old < last_use ops k'" using m by simp
      then show ?thesis using m by (simp add: st keys_snoc)
    qed
    have "used_key (OpSet k v) ?c = Some k" using absent by simp
    then have lu: "last_use (ops @ [OpSet k v]) k = Suc (length ops)"
      by (simp add: last_use_snoc)
    from o om st gone stay lu show ?thesis by blast
  qed
  have get: "jsmap_keys (run_ops (ops @ [OpGet k]) []) = filter (\<lambda>x. x \<noteq> k) (jsmap_keys ?c) @ [k] \<and>
      last_use (ops @ [OpGet k]) k = Suc (length ops) \<and>
      (\<forall>k'. k' \<noteq> k \<longrightarrow> last_use (ops @ [OpGet k]) k' = last_use ops k')"
    if present: "k \<in> set (jsmap_keys ?c)"
  proof -
    obtain item where "jsmap_get ?c k = Some item"
      using present get_hit_iff[of ?c k] by auto
    then have "jsmap_keys (run_ops (ops @ [OpGet k]) []) = filter (\<lambda>x. x \<noteq> k) (jsmap_keys ?c) @ [k]"
      by (simp add: run_ops_append scrubCache_get_def keys_set keys_delete)
    moreover have "used_key (OpGet k) ?c = Some k" using present by simp
    then have "last_use (ops @ [OpGet k]) = (last_use ops)(k := Suc (length ops))"
      by (simp add: last_use_snoc)
    ultimately show ?thesis by simp
  qed
  from bound ins get ord show ?thesis by blast
qed

text \<open>
  The trace that sets 150 distinct keys and then gets the first one, followed by the
  insertion of a new key: the cache is at capacity, the insertion evicts the second key
  inserted and keeps the first key inserted, which was read since.
\<close>

theorem scrubCache_bounded_lru_witness:
  "length (run_ops (fill_ops 150 @ [OpGet (key_of 0)]) []) = maxSize \<and>
   key_of 150 \<notin> set (jsmap_keys (run_ops (fill_ops 150 @ [OpGet (key_of 0)]) [])) \<and>
   key_of 0 \<in> set (jsmap_keys (run_ops (fill_ops 150 @ [OpGet (key_of 0)]) [])) \<and>
   run_ops ((fill_ops 150 @ [OpGet (key_of 0)]) @ [OpSet (key_of 150) [''x'']]) []
     = fill_state 2 150 @ [(key_of 0, []), (key_of 150, [''x''])] \<and>
   key_of 1 \<notin> set (jsmap_keys (run_ops ((fill_ops 150 @ [OpGet (key_of 0)]) @ [OpSet (key_of 150) [''x'']]) [])) \<and>
   key_of 0 \<in> set (jsmap_keys (run_ops ((fill_ops 150 @ [OpGet (key_of 0)]) @ [OpSet (key_of 150) [''x'']]) [])) \<and>
   last_use (fill_ops 150 @ [OpGet (key_of 0)]) (key_of 1)
     < last_use (fill_ops 150 @ [OpGet (key_of 0)]) (key_of 0)"
proof -
  let ?W = "fill_ops 150 @ [OpGet (key_of 0)]"
  let ?I = "OpSet (key_of 150) [''x'']"
  have st: "run_ops ?W [] = (key_of (Suc 0), []) # fill_state (Suc (Suc 0)) 150 @ [(key_of 0, [])]"
    using fill_state_Cons[of "Suc 0" 150] by (simp add: get_first_of_full)
  have len: "maxSize \<le> length (run_ops ?W [])" "length (run_ops ?W []) = maxSize"
    by (simp_all add: st length_fill_state maxSize_def)
  have abs: "key_of 150 \<notin> set (jsmap_keys (run_ops ?W []))"
    by (simp add: st keys_Cons keys_snoc key_in_fill_state key_of_inj)
  have old: "oldestKey (run_ops ?W []) = Some (key_of (Suc 0))"
    by (simp add: st oldestKey_def)
  have mem: "key_of 0 \<in> set (jsmap_keys (run_ops ?W []))"
    by (simp add: st keys_Cons keys_snoc)
  have tl: "tl (run_ops ?W []) = fill_state (Suc (Suc 0)) 150 @ [(key_of 0, [])]"
    by (simp add: st)
  from scrubCache_bounded_lru[of ?W "key_of 150" "[''x'']"] len(1) abs old
  have r: "run_ops (?W @ [?I]) [] = tl (run_ops ?W []) @ [(key_of 150, [''x''])]"
    and g: "key_of (Suc 0) \<notin> set (jsmap_keys (run_ops (?W @ [?I]) []))"
    and s: "\<forall>k'\<in>set (jsmap_keys (run_ops ?W [])). k' \<noteq> key_of (Suc 0) \<longrightarrow>
             k' \<in> set (jsmap_keys (run_ops (?W @ [?I]) [])) \<and>
             last_use ?W (key_of (Suc 0)) < last_use ?W k'"
    by auto
  from s mem have k0: "key_of 0 \<in> set (jsmap_keys (run_ops (?W @ [?I]) []))"
    "last_use ?W (key_of (Suc 0)) < last_use ?W (key_of 0)"
    by (auto simp: key_of_inj)
  have r': "run_ops (?W @ [?I]) [] = fill_state 2 150 @ [(key_of 0, []), (key_of 150, [''x''])]"
    unfolding r tl by (simp add: numeral_2_eq_2)
  from len(2) abs mem r' g k0 show ?thesis by (simp del: run_ops.simps append_assoc)
qed

text \<open>
  Claim C10 says that a set on a key that is present never promotes the key. After 150
  distinct keys have been set the cache is at capacity and the first key is the oldest.
  A set on that first key evicts it and then inserts it again, so the key ends as the
  most recently used one and the second key becomes the one to evict.
\<close>

theorem scrubCache_set_lru_key_counterexample:
  "key_of 0 \<in> set (jsmap_keys (run_ops (fill_ops 150) [])) \<and>
   length (run_ops (fill_ops 150) []) = maxSize \<and>
   oldestKey (run_ops (fill_ops 150) []) = Some (key_of 0) \<and>
   last (jsmap_keys (scrubCache_set (key_of 0) [''x''] (run_ops (fill_ops 150) []))) = key_of 0 \<and>
   oldestKey (scrubCache_set (key_of 0) [''x''] (run_ops (fill_ops 150) [])) = Some (key_of 1)"
proof -
  have "scrubCache_set (key_of 0) [''x''] (run_ops (fill_ops 150) [])
          = (key_of 1, []) # fill_state 2 150 @ [(key_of 0, [''x''])]"
    using set_first_of_full[of "[''x'']"] fill_state_Cons[of "Suc 0" 150]
    by (simp add: run_ops_append numeral_2_eq_2)
  then show ?thesis
    by (simp add: full_state keys_Cons keys_snoc oldestKey_def length_fill_state maxSize_def)
qed

text \<open>
  Claim C10, amended. For a key \<open>k\<close> that is present: at capacity, set still evicts the
  oldest entry, and \<open>k\<close> keeps its place among the remaining keys unless \<open>k\<close> is itself
  that oldest entry, in which case it is evicted and inserted again at the most recent
  end; below capacity, set leaves the order of the keys as it is; get moves \<open>k\<close> to the
  most recent end. And there is an interleaving in which a key is overwritten by set,
  is then the oldest key of the cache although another key was set before it and never
  read since, and is evicted two insertions later while that other key stays.
\<close>

theorem scrubCache_set_present_key:
  assumes "distinct (jsmap_keys c)" and "k \<in> set (jsmap_keys c)"
  shows "(maxSize \<le> length c \<longrightarrow>
           (\<exists>old rest. jsmap_keys c = old # rest \<and> oldestKey c = Some old \<and>
              jsmap_keys (scrubCache_set k v c) = (if k = old then rest @ [k] else rest)))
       \<and> (length c < maxSize \<longrightarrow> jsmap_keys (scrubCache_set k v c) = jsmap_keys c)
       \<and> jsmap_keys (snd (scrubCache_get k c)) = filter (\<lambda>x. x \<noteq> k) (jsmap_keys c) @ [k]
       \<and> (\<exists>ops k1 v1 k2 n1 n2.
             k1 \<in> set (jsmap_keys (run_ops ops [])) \<and> k2 \<noteq> k1 \<and>
             k2 \<in> set (jsmap_keys (run_ops (ops @ [OpSet k1 v1]) [])) \<and>
             oldestKey (run_ops (ops @ [OpSet k1 v1]) []) = Some k1 \<and>
             k1 \<notin> set (jsmap_keys (run_ops (ops @ [OpSet k1 v1, OpSet n1 [], OpSet n2 []]) [])) \<and>
             k2 \<in> set (jsmap_keys (run_ops (ops @ [OpSet k1 v1, OpSet n1 [], OpSet n2 []]) [])))"
proof (intro conjI impI)
  assume full: "maxSize \<le> length c"
  from evict_at_capacity[OF full assms(1)] obtain old rest where
    k: "jsmap_keys c = old # rest" and o: "oldestKey c = Some old"
    and r: "jsmap_keys (evictOldest c) = rest"
    by blast
  have "old \<notin> set rest" using assms(1) k by simp
  then have "jsmap_keys (scrubCache_set k v c) = (if k = old then rest @ [k] else rest)"
    using assms(2) k r by (auto simp: scrubCache_set_def keys_set)
  with k o show "\<exists>old rest. jsmap_keys c = old # rest \<and> oldestKey c = Some old \<and>
              jsmap_keys (scrubCache_set k v c) = (if k = old then rest @ [k] else rest)"
    by blast
next
  assume "length c < maxSize"
  then show "jsmap_keys (scrubCache_set k v c) = jsmap_keys c"
    using assms(2) by (simp add: scrubCache_set_def evictOldest_def keys_set)
next
  obtain item where "jsmap_get c k = Some item"
    using assms(2) get_hit_iff[of c k] by auto
  then show "jsmap_keys (snd (scrubCache_get k c)) = filter (\<lambda>x. x \<noteq> k) (jsmap_keys c) @ [k]"
    by (simp add: scrubCache_get_def keys_set keys_delete)
next
  let ?ops = "fill_ops 150"
  have 1: "key_of 1 \<in> set (jsmap_keys (run_ops ?ops []))"
    by (simp add: full_state keys_Cons key_in_fill_state)
  have 2: "key_of 2 \<in> set (jsmap_keys (run_ops (?ops @ [OpSet (key_of 1) [''x'']]) []))"
    by (simp add: set_second_of_full keys_Cons key_in_fill_state numeral_2_eq_2)
  have 3: "oldestKey (run_ops (?ops @ [OpSet (key_of 1) [''x'']]) []) = Some (key_of 1)"
    by (simp add: set_second_of_full oldestKey_def)
  have 4: "key_of 1 \<notin> set (jsmap_keys (run_ops (?ops @ [OpSet (key_of 1) [''x''], OpSet (key_of 150) [], OpSet (key_of 151) []]) []))"
    by (simp add: set_second_then_two jsmap_keys_def fill_state_def key_of_inj image_iff)
  have 5: "key_of 2 \<in> set (jsmap_keys (run_ops (?ops @ [OpSet (key_of 1) [''x''], OpSet (key_of 150) [], OpSet (key_of 151) []]) []))"
    by (simp add: set_second_then_two jsmap_keys_def fill_state_def key_of_inj image_iff)
  have 6: "key_of 2 \<noteq> key_of 1" by (simp add: key_of_inj)
  from 1 2 3 4 5 6 show "\<exists>ops k1 v1 k2 n1 n2.
             k1 \<in> set (jsmap_keys (run_ops ops [])) \<and> k2 \<noteq> k1 \<and>
             k2 \<in> set (jsmap_keys (run_ops (ops @ [OpSet k1 v1]) [])) \<and>
             oldestKey (run_ops (ops @ [OpSet k1 v1]) []) = Some k1 \<and>
             k1 \<notin> set (jsmap_keys (run_ops (ops @ [OpSet k1 v1, OpSet n1 [], OpSet n2 []]) [])) \<and>
             k2 \<in> set (jsmap_keys (run_ops (ops @ [OpSet k1 v1, OpSet n1 [], OpSet n2 []]) []))"
    by blast
qed

text \<open>
  The amended claim at the full cache of 150 keys, for the second key, and below capacity
  at a cache of two keys.
\<close>

theorem scrubCache_set_present_key_witness:
  "jsmap_keys (scrubCache_set (key_of 1) [''x''] (run_ops (fill_ops 150) []))
     = tl (jsmap_keys (run_ops (fill_ops 150) [])) \<and>
   jsmap_keys (scrubCache_set ''a'' [''x''] [(''a'', []), (''b'', [])]) = [''a'', ''b''] \<and>
   jsmap_keys (snd (scrubCache_get ''a'' [(''a'', []), (''b'', [])])) = [''b'', ''a'']"
proof -
  let ?c = "run_ops (fill_ops 150) []"
  have d: "distinct (jsmap_keys ?c)" by (rule distinct_run)
  have m: "key_of 1 \<in> set (jsmap_keys ?c)"
    by (simp add: full_state keys_Cons key_in_fill_state)
  have f: "maxSize \<le> length ?c"
    by (simp add: full_state length_fill_state maxSize_def)
  have o: "oldestKey ?c = Some (key_of 0)"
    by (simp add: full_state oldestKey_def)
  from scrubCache_set_present_key[OF d m, of "[''x'']"] f o
  have 1: "jsmap_keys (scrubCache_set (key_of 1) [''x''] ?c) = tl (jsmap_keys ?c)"
    by (auto simp: key_of_inj)
  let ?s = "[(''a'', []), (''b'', [])]"
  have d2: "distinct (jsmap_keys ?s)" by (simp add: jsmap_keys_def)
  have m2: "''a'' \<in> set (jsmap_keys ?s)" by (simp add: jsmap_keys_def)
  have l2: "length ?s < maxSize" by (simp add: maxSize_def)
  from scrubCache_set_present_key[OF d2 m2, of "[''x'']"] l2
  have 2: "jsmap_keys (scrubCache_set ''a'' [''x''] ?s) = [''a'', ''b''] \<and>
           jsmap_keys (snd (scrubCache_get ''a'' ?s)) = [''b'', ''a'']"
    by (simp add: jsmap_keys_def)
  from 1 2 show ?thesis by simp
qed

section \<open>Proofs: PersistentStore\<close>

lemma store_put_mem: "store_put v s = Some s' \<Longrightarrow> r \<in> set s' \<Longrightarrow> r \<in> set s \<or> r = v"
  by (auto simp: store_put_def split: if_splits)

lemma store_put_new: "store_put v s = Some s' \<Longrightarrow> v \<in> set s'"
  by (auto simp: store_put_def split: if_splits)

lemma put_all_mem: "put_all ws s = Some s' \<Longrightarrow> r \<in> set s' \<Longrightarrow> r \<in> set s \<or> r \<in> set ws"
proof (induction ws arbitrary: s)
  case Nil
  then show ?case by simp
next
  case (Cons w ws)
  then obtain s1 where s1: "store_put w s = Some s1" and rest: "put_all ws s1 = Some s'"
    by (auto split: option.splits)
  from Cons.IH[OF rest Cons.prems(2)] store_put_mem[OF s1] show ?case by auto
qed

text \<open>
  Claim C8. An upsert of a record whose \<open>thumbnail\<close> is null leaves the primary-thumbnail
  store (and the timeline store) as it was, whether the transaction commits or is
  rejected, and when it commits the metadata record is in the record store. A batch
  update never changes the thumbnail stores, whatever thumbnails its records carry, and
  every record it writes is the metadata of a batch record, its thumbnail stripped.
\<close>

theorem upsert_null_thumbnail_frame:
  "(thumbnail video = None \<longrightarrow>
      MAIN_THUMBNAILS (db_after (upsertVideo video d) d) = MAIN_THUMBNAILS d \<and>
      TIMELINE_THUMBNAILS (db_after (upsertVideo video d) d) = TIMELINE_THUMBNAILS d \<and>
      (\<forall>d'. upsertVideo video d = Inr d' \<longrightarrow> videoMetadata video \<in> set (VIDEOS d'))) \<and>
   MAIN_THUMBNAILS (db_after (batchUpdateVideos vs d) d) = MAIN_THUMBNAILS d \<and>
   TIMELINE_THUMBNAILS (db_after (batchUpdateVideos vs d) d) = TIMELINE_THUMBNAILS d \<and>
   (\<forall>d'. batchUpdateVideos vs d = Inr d' \<longrightarrow>
      (\<forall>r\<in>set (VIDEOS d'). r \<in> set (VIDEOS d) \<or> r \<in> videoMetadata ` set vs))"
proof (intro conjI impI allI)
  assume n: "thumbnail video = None"
  show "MAIN_THUMBNAILS (db_after (upsertVideo video d) d) = MAIN_THUMBNAILS d"
    using n by (simp add: upsertVideo_def db_after_def split: option.splits)
  show "TIMELINE_THUMBNAILS (db_after (upsertVideo video d) d) = TIMELINE_THUMBNAILS d"
    by (simp add: upsertVideo_def db_after_def split: option.splits)
  fix d' assume "upsertVideo video d = Inr d'"
  then show "videoMetadata video \<in> set (VIDEOS d')"
    by (auto simp: upsertVideo_def split: option.splits dest: store_put_new)
next
  show "MAIN_THUMBNAILS (db_after (batchUpdateVideos vs d) d) = MAIN_THUMBNAILS d"
    by (simp add: batchUpdateVideos_def db_after_def split: option.splits)
  show "TIMELINE_THUMBNAILS (db_after (batchUpdateVideos vs d) d) = TIMELINE_THUMBNAILS d"
    by (simp add: batchUpdateVideos_def db_after_def split: option.splits)
next
  fix d' assume ok: "batchUpdateVideos vs d = Inr d'"
  show "\<forall>r\<in>set (VIDEOS d'). r \<in> set (VIDEOS d) \<or> r \<in> videoMetadata ` set vs"
  proof
    fix r assume r: "r \<in> set (VIDEOS d')"
    show "r \<in> set (VIDEOS d) \<or> r \<in> videoMetadata ` set vs"
    proof (cases "vs = []")
      case True
      then show ?thesis using ok r by (simp add: batchUpdateVideos_def)
    next
      case False
      then have "put_all (map videoMetadata vs) (VIDEOS d) = Some (VIDEOS d')"
        using ok by (auto simp: batchUpdateVideos_def split: option.splits)
      from put_all_mem[OF this r] show ?thesis by auto
    qed
  qed
qed

text \<open>
  An edit of the rating of the sample record keeps the stored thumbnail, and a batch
  update that carries a new thumbnail stores none of it.
\<close>

theorem upsert_null_thumbnail_frame_witness:
  "thumbnail (sample_video\<lparr>rating := 3\<rparr>) = None \<and>
   upsertVideo (sample_video\<lparr>rating := 3\<rparr>) sample_db = Inr (sample_db\<lparr>VIDEOS := [sample_video\<lparr>rating := 3\<rparr>]\<rparr>) \<and>
   MAIN_THUMBNAILS (db_after (upsertVideo (sample_video\<lparr>rating := 3\<rparr>) sample_db) sample_db) ''v1''
     = Some ''data:thumb'' \<and>
   batchUpdateVideos [sample_video\<lparr>thumbnail := Some ''new''\<rparr>] sample_db = Inr sample_db \<and>
   MAIN_THUMBNAILS (db_after (batchUpdateVideos [sample_video\<lparr>thumbnail := Some ''new''\<rparr>] sample_db) sample_db) ''v1''
     = Some ''data:thumb''"
proof -
  have t: "thumbnail (sample_video\<lparr>rating := 3\<rparr>) = None" by (simp add: sample_video_def)
  have u: "upsertVideo (sample_video\<lparr>rating := 3\<rparr>) sample_db = Inr (sample_db\<lparr>VIDEOS := [sample_video\<lparr>rating := 3\<rparr>]\<rparr>)"
    by (simp add: upsertVideo_def store_put_def index_conflict_def videoMetadata_def
        sample_video_def sample_db_def)
  have b: "batchUpdateVideos [sample_video\<lparr>thumbnail := Some ''new''\<rparr>] sample_db = Inr sample_db"
    by (simp add: batchUpdateVideos_def store_put_def index_conflict_def videoMetadata_def
        sample_video_def sample_db_def)
  have m: "MAIN_THUMBNAILS sample_db ''v1'' = Some ''data:thumb''" by (simp add: sample_db_def)
  from upsert_null_thumbnail_frame[of "sample_video\<lparr>rating := 3\<rparr>" sample_db
      "[sample_video\<lparr>thumbnail := Some ''new''\<rparr>]"] t u b m
  show ?thesis by simp
qed

section \<open>Proofs: playlist import and thumbnail regeneration\<close>

lemma all_strings_iff: "list_all isString elems = (\<exists>ids. elems = map JString ids)"
proof
  assume "list_all isString elems"
  then have "elems = map JString (map stringOf elems)"
    by (induction elems) (auto simp: isString_def stringOf_def split: json.splits)
  then show "\<exists>ids. elems = map JString ids" by blast
next
  assume "\<exists>ids. elems = map JString ids"
  then show "list_all isString elems"
    by (auto simp: list_all_iff isString_def)
qed

lemma stringOf_JString: "map stringOf (map JString ids) = ids"
  by (induction ids) (auto simp: stringOf_def)

text \<open>
  Claim C7. Playlist import accepts exactly the files whose text parses to a JSON array
  of strings. On acceptance the playlist becomes the imported sequence with the
  identifiers that no record of the library carries dropped, in the same order, and a
  success message is shown. On every other file (unreadable, not JSON, not an array, or
  an array with an element that is not a string) the state is unchanged but for an error
  message. When no file is picked nothing happens.
\<close>

theorem import_playlist_all_or_nothing:
  "(picked = FileText text \<and> JSON_parse text = Some (JArray (map JString ids)) \<longrightarrow>
      handleImportPlaylist JSON_parse picked a =
        showToast (''Imported '' @ string_of_nat (length (filter (\<lambda>x. x \<in> id' ` set (videos a)) ids)) @ '' videos to playlist.'')
          ToastSuccess (a\<lparr>playlist := filter (\<lambda>x. x \<in> id' ` set (videos a)) ids\<rparr>))
   \<and> (picked \<noteq> NoFile \<and>
        \<not> (\<exists>t xs. picked = FileText t \<and> JSON_parse t = Some (JArray (map JString xs))) \<longrightarrow>
        playlist (handleImportPlaylist JSON_parse picked a) = playlist a \<and>
        toastType (handleImportPlaylist JSON_parse picked a) = ToastError \<and>
        toastMessage (handleImportPlaylist JSON_parse picked a)
          \<in> {''Failed to import playlist.'', ''Invalid playlist file format.''} \<and>
        handleImportPlaylist JSON_parse picked a =
          showToast (toastMessage (handleImportPlaylist JSON_parse picked a)) ToastError a)
   \<and> (picked = NoFile \<longrightarrow> handleImportPlaylist JSON_parse picked a = a)"
proof -
  let ?r = "handleImportPlaylist JSON_parse picked a"
  have acc: "?r = showToast (''Imported '' @ string_of_nat (length (filter (\<lambda>x. x \<in> id' ` set (videos a)) ids)) @ '' videos to playlist.'')
          ToastSuccess (a\<lparr>playlist := filter (\<lambda>x. x \<in> id' ` set (videos a)) ids\<rparr>)"
    if "picked = FileText text \<and> JSON_parse text = Some (JArray (map JString ids))"
  proof -
    have "list_all isString (map JString ids)" by (auto simp: all_strings_iff)
    moreover have "(\<lambda>x. \<exists>v\<in>set (videos a). id' v = x) = (\<lambda>x. x \<in> id' ` set (videos a))"
      by auto
    ultimately show ?thesis using that
      by (simp add: handleImportPlaylist_def stringOf_def comp_def Let_def del: string_of_nat.simps)
  qed
  have rej: "playlist ?r = playlist a \<and> toastType ?r = ToastError \<and>
        toastMessage ?r \<in> {''Failed to import playlist.'', ''Invalid playlist file format.''} \<and>
        ?r = showToast (toastMessage ?r) ToastError a"
    if h: "picked \<noteq> NoFile \<and>
        \<not> (\<exists>t xs. picked = FileText t \<and> JSON_parse t = Some (JArray (map JString xs)))"
  proof -
    have "?r = showToast ''Failed to import playlist.'' ToastError a
        \<or> ?r = showToast ''Invalid playlist file format.'' ToastError a"
      using h
      by (auto simp: handleImportPlaylist_def all_strings_iff split: picked_file.splits option.splits json.splits)
    then show ?thesis by (auto simp: showToast_def)
  qed
  have nof: "?r = a" if "picked = NoFile"
    using that by (simp add: handleImportPlaylist_def)
  from acc rej nof show ?thesis by blast
qed

text \<open>
  Importing \<open>[v1, zz]\<close> into the sample library keeps \<open>v1\<close> only; importing an array
  with a number in it leaves the playlist \<open>[v2]\<close> and reports an error.
\<close>

theorem import_playlist_all_or_nothing_witness:
  "playlist (handleImportPlaylist (\<lambda>_. Some (JArray (map JString [''v1'', ''zz''])))
       (FileText ''[v1, zz]'') sample_app) = [''v1''] \<and>
   playlist (handleImportPlaylist (\<lambda>_. Some (JArray [JString ''v1'', JNumber 3]))
       (FileText ''[v1, 3]'') sample_app) = [''v2''] \<and>
   toastType (handleImportPlaylist (\<lambda>_. Some (JArray [JString ''v1'', JNumber 3]))
       (FileText ''[v1, 3]'') sample_app) = ToastError"
proof -
  have 1: "playlist (handleImportPlaylist (\<lambda>_. Some (JArray (map JString [''v1'', ''zz''])))
       (FileText ''[v1, zz]'') sample_app) = [''v1'']"
    using import_playlist_all_or_nothing[of "FileText ''[v1, zz]''" "''[v1, zz]''"
        "\<lambda>_. Some (JArray (map JString [''v1'', ''zz'']))" "[''v1'', ''zz'']" sample_app]
    by (simp add: showToast_def sample_app_def sample_video_def sample_video2_def del: string_of_nat.simps)
  have "\<not> (\<exists>xs. [JString ''v1'', JNumber 3] = map JString xs)"
    by (auto simp: map_eq_Cons_conv)
  then have 2: "playlist (handleImportPlaylist (\<lambda>_. Some (JArray [JString ''v1'', JNumber 3]))
       (FileText ''[v1, 3]'') sample_app) = playlist sample_app \<and>
     toastType (handleImportPlaylist (\<lambda>_. Some (JArray [JString ''v1'', JNumber 3]))
       (FileText ''[v1, 3]'') sample_app) = ToastError"
    using import_playlist_all_or_nothing[of "FileText ''[v1, 3]''" "''[v1, 3]''"
        "\<lambda>_. Some (JArray [JString ''v1'', JNumber 3])" "[]" sample_app]
    by simp
  from 1 2 show ?thesis by (simp add: sample_app_def)
qed

text \<open>
  Claim C9. When the session file map has no file for the record, on-demand thumbnail
  regeneration writes nothing to the database (persisted thumbnail, timeline previews and
  stored record, playability included, are as before), leaves the preview cache as it
  is, and changes nothing in the records in memory but the description of the record,
  which becomes the diagnostic message. The history stacks and the playlist are unchanged.
\<close>

theorem regenerate_without_file:
  assumes "map_of (fileMap a) (relativePath videoToRegen) = None"
  shows "fst (handleRegenerateThumbnails gen videoToRegen a) = None \<and>
         db (snd (handleRegenerateThumbnails gen videoToRegen a)) = db a \<and>
         scrubCache (snd (handleRegenerateThumbnails gen videoToRegen a)) = scrubCache a \<and>
         videos (snd (handleRegenerateThumbnails gen videoToRegen a))
           = setDescription (id' videoToRegen) (regenErrorMsg videoToRegen) (videos a) \<and>
         map (\<lambda>v. v\<lparr>description := []\<rparr>) (videos (snd (handleRegenerateThumbnails gen videoToRegen a)))
           = map (\<lambda>v. v\<lparr>description := []\<rparr>) (videos a) \<and>
         undoStack (snd (handleRegenerateThumbnails gen videoToRegen a)) = undoStack a \<and>
         redoStack (snd (handleRegenerateThumbnails gen videoToRegen a)) = redoStack a \<and>
         playlist (snd (handleRegenerateThumbnails gen videoToRegen a)) = playlist a"
  using assms
  by (simp add: handleRegenerateThumbnails_def getFileForPlayback_def showToast_def
      setDescription_def comp_def)

text \<open>The sample application has an empty file map: regeneration of its first record.\<close>

theorem regenerate_without_file_witness:
  "db (snd (handleRegenerateThumbnails (\<lambda>_. ProbeFrame (Some ''frame'')) sample_video sample_app)) = db sample_app \<and>
   scrubCache (snd (handleRegenerateThumbnails (\<lambda>_. ProbeFrame (Some ''frame'')) sample_video sample_app))
     = [(''v1'', [''f1''])] \<and>
   map isPlayable (videos (snd (handleRegenerateThumbnails (\<lambda>_. ProbeFrame (Some ''frame'')) sample_video sample_app)))
     = [True, True] \<and>
   map description (videos (snd (handleRegenerateThumbnails (\<lambda>_. ProbeFrame (Some ''frame'')) sample_video sample_app)))
     = [regenErrorMsg sample_video, []]"
proof -
  have "map_of (fileMap sample_app) (relativePath sample_video) = None"
    by (simp add: sample_app_def)
  from regenerate_without_file[OF this, of "\<lambda>_. ProbeFrame (Some ''frame'')"]
  show ?thesis
    by (simp add: sample_app_def setDescription_def sample_video_def sample_video2_def)
qed

section \<open>Proofs: EditHistory\<close>

lemma store_put_keep: "store_put v s = Some s' \<Longrightarrow> r \<in> set s \<Longrightarrow> id' r \<noteq> id' v \<Longrightarrow> r \<in> set s'"
  by (auto simp: store_put_def split: if_splits)

lemma put_all_last:
  "put_all ws s = Some s' \<Longrightarrow> w \<in> set ws \<Longrightarrow> \<exists>r\<in>set s'. id' r = id' w \<and> r \<in> set ws"
proof (induction ws arbitrary: s w)
  case Nil
  then show ?case by simp
next
  case (Cons x ws)
  then obtain s1 where s1: "store_put x s = Some s1" and rest: "put_all ws s1 = Some s'"
    by (auto split: option.splits)
  show ?case
  proof (cases "\<exists>y\<in>set ws. id' y = id' w")
    case True
    then obtain y where "y \<in> set ws" "id' y = id' w" by blast
    from Cons.IH[OF rest \<open>y \<in> set ws\<close>] \<open>id' y = id' w\<close> show ?thesis by auto
  next
    case False
    then have wx: "w = x" using Cons.prems(2) by auto
    have keep: "\<And>t. put_all ws t = Some s' \<Longrightarrow> x \<in> set t \<Longrightarrow> x \<in> set s'"
      using False unfolding wx
    proof (induction ws)
      case Nil
      then show ?case by simp
    next
      case (Cons y ys)
      from Cons.prems(1) obtain t1 where t1: "store_put y t = Some t1" and r: "put_all ys t1 = Some s'"
        by (auto split: option.splits)
      have "x \<in> set t1" using store_put_keep[OF t1 Cons.prems(2)] Cons.prems(3) by auto
      then show ?case using Cons.IH[OF r] Cons.prems(3) by auto
    qed
    have "x \<in> set s1" using s1 by (rule store_put_new)
    from keep[OF rest this] show ?thesis using wx by auto
  qed
qed

lemma findById_Some: "findById vs x = Some p \<Longrightarrow> p \<in> set vs \<and> id' p = x"
  by (auto simp: findById_def find_Some_iff)

lemma findById_replaced:
  "findById vs x = Some p \<Longrightarrow> id' u = x \<Longrightarrow>
   findById (map (\<lambda>v. if id' v = x then u else v) vs) x = Some u"
  by (induction vs) (auto simp: findById_def split: if_splits)

lemma id_applyChange: "id' (applyChange c v) = id' v"
  by (cases c) auto

lemma id_spreadChanges: "id' (spreadChanges t cs) = id' t"
  by (induction cs arbitrary: t) (auto simp: id_applyChange)

lemma seen_spreadChanges: "seen (spreadChanges t (cs @ [ChSeen True]))"
  by (induction cs arbitrary: t) auto

lemma applyUpdatesMap_cases:
  assumes "w \<in> set (applyUpdatesMap pairs vs)"
  shows "(id' w, w) \<in> set pairs \<or> (w \<in> set vs \<and> id' w \<notin> fst ` set pairs) \<or>
         (\<exists>v\<in>set vs. (id' v, w) \<in> set pairs)"
proof -
  from assms obtain v where v: "v \<in> set vs"
    and w: "w = (case map_of (rev pairs) (id' v) of Some u \<Rightarrow> u | None \<Rightarrow> v)"
    by (auto simp: applyUpdatesMap_def)
  show ?thesis
  proof (cases "map_of (rev pairs) (id' v)")
    case None
    then have "id' v \<notin> fst ` set pairs" by (simp add: map_of_eq_None_iff)
    then show ?thesis using v w None by simp
  next
    case (Some u)
    then have "(id' v, u) \<in> set pairs" using map_of_SomeD[OF Some] by simp
    then show ?thesis using v w Some by auto
  qed
qed

lemma id_eq_in_distinct:
  "distinct (map id' vs) \<Longrightarrow> x \<in> set vs \<Longrightarrow> y \<in> set vs \<Longrightarrow> id' x = id' y \<Longrightarrow> x = y"
  by (auto simp: distinct_map dest: inj_onD)

lemma updates_lookup:
  assumes "distinct (map id' vs)" "set T \<subseteq> set vs" "v \<in> set vs"
  shows "map_of (rev (map (\<lambda>x. (id' x, h x)) T)) (id' v) = (if v \<in> set T then Some (h v) else None)"
proof (cases "v \<in> set T")
  case True
  then have "id' v \<in> fst ` set (rev (map (\<lambda>x. (id' x, h x)) T))" by (auto simp: image_iff)
  then obtain y where y: "map_of (rev (map (\<lambda>x. (id' x, h x)) T)) (id' v) = Some y"
    by (cases "map_of (rev (map (\<lambda>x. (id' x, h x)) T)) (id' v)") (auto simp: map_of_eq_None_iff)
  from map_of_SomeD[OF y] obtain x where x: "x \<in> set T" "id' x = id' v" "y = h x" by auto
  then have "x = v" using assms id_eq_in_distinct[of vs x v] by auto
  then show ?thesis using True y x by simp
next
  case False
  have "id' v \<notin> fst ` set (rev (map (\<lambda>x. (id' x, h x)) T))"
  proof
    assume "id' v \<in> fst ` set (rev (map (\<lambda>x. (id' x, h x)) T))"
    then obtain x where x: "x \<in> set T" "id' x = id' v" by (auto simp: image_iff)
    then have "x = v" using assms id_eq_in_distinct[of vs x v] by auto
    then show False using x False by simp
  qed
  then show ?thesis using False by (simp add: map_of_eq_None_iff)
qed

lemma applyUpdatesMap_on_map:
  assumes "distinct (map id' vs)" "set T \<subseteq> set vs" "\<forall>v\<in>set vs. id' (f v) = id' v"
  shows "applyUpdatesMap (map (\<lambda>x. (id' x, h x)) T) (map f vs)
           = map (\<lambda>v. if v \<in> set T then h v else f v) vs"
  using assms updates_lookup[OF assms(1,2), of _ h]
  by (auto simp: applyUpdatesMap_def)

lemma findById_map:
  "distinct (map id' vs) \<Longrightarrow> \<forall>v\<in>set vs. id' (f v) = id' v \<Longrightarrow> x \<in> set vs \<Longrightarrow>
   findById (map f vs) (id' x) = Some (f x)"
proof (induction vs)
  case Nil
  then show ?case by simp
next
  case (Cons v vs)
  show ?case
  proof (cases "x = v")
    case True
    then show ?thesis using Cons.prems by (simp add: findById_def)
  next
    case False
    then have x: "x \<in> set vs" using Cons.prems by simp
    then have "id' v \<noteq> id' x" using Cons.prems(1) by (auto simp: image_iff)
    moreover have "findById (map f vs) (id' x) = Some (f x)"
      using Cons.IH Cons.prems x by simp
    ultimately show ?thesis using Cons.prems(2) by (simp add: findById_def)
  qed
qed

lemma currentStates_map:
  assumes "distinct (map id' vs)" "set T \<subseteq> set vs" "\<forall>v\<in>set vs. id' (f v) = id' v"
  shows "currentStates (map (\<lambda>x. \<lparr>videoId = id' x, state = g x\<rparr>) T) (map f vs)
           = map (\<lambda>x. \<lparr>videoId = id' x, state = f x\<rparr>) T"
proof -
  have "\<And>x. x \<in> set T \<Longrightarrow> findById (map f vs) (id' x) = Some (f x)"
    using findById_map[OF assms(1,3)] assms(2) by auto
  then show ?thesis
    unfolding currentStates_def by (induction T) auto
qed

lemma put_all_unique:
  assumes "put_all ws s = Some s'" "w \<in> set ws" "\<forall>x\<in>set ws. id' x = id' w \<longrightarrow> x = w"
  shows "w \<in> set s'"
  using put_all_last[OF assms(1,2)] assms(3) by auto

lemma batch_stores_all:
  assumes "distinct (map id' vs)" "set T \<subseteq> set vs" "\<forall>v\<in>set vs. id' (g v) = id' v"
      and "batchUpdateVideos (map g T) d = Inr d'" "x \<in> set T"
  shows "videoMetadata (g x) \<in> set (VIDEOS d')"
proof -
  have ne: "map g T \<noteq> []" using assms(5) by auto
  then have put: "put_all (map videoMetadata (map g T)) (VIDEOS d) = Some (VIDEOS d')"
    using assms(4) by (auto simp: batchUpdateVideos_def split: option.splits)
  have mem: "videoMetadata (g x) \<in> set (map videoMetadata (map g T))" using assms(5) by auto
  have "y = videoMetadata (g x)"
    if "y \<in> set (map videoMetadata (map g T))" "id' y = id' (videoMetadata (g x))" for y
  proof -
    from that obtain z where z: "z \<in> set T" "y = videoMetadata (g z)" by auto
    have "id' (g z) = id' z" "id' (g x) = id' x" using z(1) assms(2,3,5) by auto
    then have "id' z = id' x" using that(2) z(2) by (simp add: videoMetadata_def)
    then have "z = x" using id_eq_in_distinct[OF assms(1), of z x] z assms(2,5) by auto
    then show ?thesis using z by simp
  qed
  then show ?thesis using put_all_unique[OF put mem] by blast
qed

lemma handleUpdateVideo_single_None:
  assumes "\<not> isBatchEditMode a" "findById (videos a) (id' u) = None"
  shows "handleUpdateVideo displayed u a =
           (case updateVideo u (db a) of
              Inl e \<Rightarrow> (Some (DbError e), a)
            | Inr d' \<Rightarrow> (None, a\<lparr> db := d', videos := map (\<lambda>v. if id' v = id' u then u else v) (videos a) \<rparr>))"
  unfolding handleUpdateVideo_def Let_def assms(2) option.case
  using assms(1) by (simp only: if_False)

lemma handleUpdateVideo_single_Some:
  assumes "\<not> isBatchEditMode a" "findById (videos a) (id' u) = Some p"
      and "updated = (if playedUnseen u p then u\<lparr>seen := True\<rparr> else u)"
      and "b = (if p \<noteq> updated
                then a\<lparr> undoStack := undoStack a @ [[\<lparr>videoId = id' updated, state = p\<rparr>]],
                        redoStack := [] \<rparr>
                else a)"
  shows "handleUpdateVideo displayed u a =
           (case updateVideo updated (db b) of
              Inl e \<Rightarrow> (Some (DbError e), b)
            | Inr d' \<Rightarrow> (None, b\<lparr> db := d',
                  videos := map (\<lambda>v. if id' v = id' updated then updated else v) (videos b) \<rparr>))"
  unfolding handleUpdateVideo_def Let_def assms(2,3,4) option.case
  using assms(1) by (simp only: if_False)

lemma handleUpdateVideo_batch_None:
  assumes "isBatchEditMode a" "findById (videos a) (id' u) = None"
  shows "handleUpdateVideo displayed u a = (None, a)"
  unfolding handleUpdateVideo_def Let_def assms(2) option.case
  using assms(1) by (simp only: if_True)

lemma handleUpdateVideo_batch_Some:
  assumes "isBatchEditMode a" "findById (videos a) (id' u) = Some p"
      and "changes = changedFields p u @ (if playedUnseen u p then [ChSeen True] else [])"
      and "ups = map (\<lambda>x. spreadChanges x changes) displayed"
  shows "handleUpdateVideo displayed u a =
           (if changes = [] then (None, a)
            else if ups = [] then (None, a)
            else (case batchUpdateVideos ups (db a) of
                    Inl e \<Rightarrow> (Some (DbError e), a)
                  | Inr d' \<Rightarrow>
                      (None,
                       showToast (''Applied changes to '' @ string_of_nat (length ups) @ '' videos.'')
                         ToastSuccess
                         (a\<lparr> db := d',
                             videos := applyUpdatesMap (map (\<lambda>v. (id' v, v)) ups) (videos a),
                             undoStack := undoStack a @ [map (\<lambda>x. \<lparr>videoId = id' x, state = x\<rparr>) displayed],
                             redoStack := [] \<rparr>))))"
  unfolding handleUpdateVideo_def Let_def assms(2,3,4) option.case
  using assms(1) by (simp only: if_True)

text \<open>What a commit is, in either mode: the records of a list \<open>T\<close> of the library are
  replaced by their images under \<open>g\<close>, and the snapshots of \<open>T\<close> are pushed.\<close>

lemma commit_form:
  assumes d: "distinct (map id' (videos a))"
      and t: "isBatchEditMode a \<longrightarrow> set displayed \<subseteq> set (videos a)"
      and c: "handleUpdateVideo displayed updatedVideo a = (None, a1)"
      and p: "undoStack a1 \<noteq> undoStack a"
  shows "\<exists>T g. T \<noteq> [] \<and> set T \<subseteq> set (videos a) \<and> (\<forall>v\<in>set (videos a). id' (g v) = id' v) \<and>
           videos a1 = map (\<lambda>v. if v \<in> set T then g v else v) (videos a) \<and>
           undoStack a1 = undoStack a @ [map (\<lambda>x. \<lparr>videoId = id' x, state = x\<rparr>) T] \<and>
           redoStack a1 = []"
proof (cases "isBatchEditMode a")
  case True
  obtain previousState where f: "findById (videos a) (id' updatedVideo) = Some previousState"
  proof (cases "findById (videos a) (id' updatedVideo)")
    case None
    from handleUpdateVideo_batch_None[OF True None, of displayed] c p show ?thesis by simp
  next
    case (Some x)
    then show ?thesis using that by simp
  qed
  define changes where "changes = changedFields previousState updatedVideo @
        (if playedUnseen updatedVideo previousState then [ChSeen True] else [])"
  define g where "g = (\<lambda>x. spreadChanges x changes)"
  have ups: "map g displayed = map (\<lambda>x. spreadChanges x changes) displayed" by (simp add: g_def)
  note unf = handleUpdateVideo_batch_Some[OF True f changes_def ups]
  have ne: "\<not> (changes = [] \<or> displayed = [])"
    using c p unfolding unf by (auto split: if_splits)
  obtain d' where ok: "batchUpdateVideos (map g displayed) (db a) = Inr d'"
    using c ne unfolding unf by (cases "batchUpdateVideos (map g displayed) (db a)") auto
  have a1: "videos a1 = applyUpdatesMap (map (\<lambda>v. (id' v, v)) (map g displayed)) (videos a)"
    "undoStack a1 = undoStack a @ [map (\<lambda>x. \<lparr>videoId = id' x, state = x\<rparr>) displayed]"
    "redoStack a1 = []"
    using c ne ok unfolding unf by (auto simp: showToast_def simp del: string_of_nat.simps)
  have e: "map (\<lambda>v. (id' v, v)) (map g displayed) = map (\<lambda>x. (id' x, g x)) displayed"
    by (simp add: g_def id_spreadChanges)
  have "applyUpdatesMap (map (\<lambda>x. (id' x, g x)) displayed) (map (\<lambda>v. v) (videos a))
      = map (\<lambda>v. if v \<in> set displayed then g v else v) (videos a)"
    by (rule applyUpdatesMap_on_map[OF d]) (use t True in auto)
  then have ap: "applyUpdatesMap (map (\<lambda>x. (id' x, g x)) displayed) (videos a)
      = map (\<lambda>v. if v \<in> set displayed then g v else v) (videos a)"
    by simp
  have "videos a1 = map (\<lambda>v. if v \<in> set displayed then g v else v) (videos a)"
    by (simp only: a1(1) e ap)
  moreover have "\<forall>v\<in>set (videos a). id' (g v) = id' v" by (simp add: g_def id_spreadChanges)
  ultimately show ?thesis using a1(2,3) ne t True
    by (intro exI[of _ displayed] exI[of _ g]) simp
next
  case False
  obtain previousState where f: "findById (videos a) (id' updatedVideo) = Some previousState"
  proof (cases "findById (videos a) (id' updatedVideo)")
    case None
    from c p show ?thesis
      unfolding handleUpdateVideo_single_None[OF False None, of displayed]
      by (cases "updateVideo updatedVideo (db a)") auto
  next
    case (Some x)
    then show ?thesis using that by simp
  qed
  define updated where "updated = (if playedUnseen updatedVideo previousState then updatedVideo\<lparr>seen := True\<rparr>
                                     else updatedVideo)"
  have iu: "id' updated = id' updatedVideo" by (simp add: updated_def)
  have pm: "previousState \<in> set (videos a)" "id' previousState = id' updatedVideo"
    using findById_Some[OF f] by auto
  define b where "b = (if previousState \<noteq> updated
                       then a\<lparr> undoStack := undoStack a @ [[\<lparr>videoId = id' updated, state = previousState\<rparr>]],
                               redoStack := [] \<rparr>
                       else a)"
  note unf = handleUpdateVideo_single_Some[OF False f updated_def b_def, of displayed]
  from c obtain d' where d': "updateVideo updated (db b) = Inr d'"
    and a1b: "a1 = b\<lparr> db := d', videos := map (\<lambda>v. if id' v = id' updated then updated else v) (videos b) \<rparr>"
    unfolding unf by (cases "updateVideo updated (db b)") auto
  have ne: "previousState \<noteq> updated"
  proof
    assume "previousState = updated"
    then have "b = a" by (simp add: b_def)
    then show False using p a1b by simp
  qed
  have a1: "videos a1 = map (\<lambda>v. if id' v = id' updated then updated else v) (videos a)"
    "undoStack a1 = undoStack a @ [[\<lparr>videoId = id' updated, state = previousState\<rparr>]]"
    "redoStack a1 = []"
  proof -
    have bu: "b = a\<lparr> undoStack := undoStack a @ [[\<lparr>videoId = id' updated, state = previousState\<rparr>]],
                       redoStack := [] \<rparr>"
      unfolding b_def using ne by (simp only: if_True not_False_eq_True)
    show "videos a1 = map (\<lambda>v. if id' v = id' updated then updated else v) (videos a)"
      "undoStack a1 = undoStack a @ [[\<lparr>videoId = id' updated, state = previousState\<rparr>]]"
      "redoStack a1 = []"
      unfolding a1b bu by simp_all
  qed
  have eqv: "(id' v = id' updated) = (v = previousState)" if "v \<in> set (videos a)" for v
    using id_eq_in_distinct[OF d that pm(1)] pm(2) iu by auto
  have "(if id' v = id' updated then updated else v)
      = (if v \<in> set [previousState] then (\<lambda>v. if v = previousState then updated else v) v else v)"
    if "v \<in> set (videos a)" for v
    unfolding eqv[OF that] by simp
  then have "map (\<lambda>v. if id' v = id' updated then updated else v) (videos a)
      = map (\<lambda>v. if v \<in> set [previousState] then (\<lambda>v. if v = previousState then updated else v) v else v) (videos a)"
    by (rule map_cong[OF refl])
  then show ?thesis
    using a1 pm iu
    by (intro exI[of _ "[previousState]"] exI[of _ "\<lambda>v. if v = previousState then updated else v"]) simp
qed

lemma handleUndo_unfold:
  assumes "undoStack a = U @ [B]"
      and "a1 = (if currentStates B (videos a) \<noteq> []
                 then a\<lparr>redoStack := redoStack a @ [currentStates B (videos a)]\<rparr> else a)"
  shows "handleUndo a =
           (case batchUpdateVideos (map state B) (db a1) of
              Inl e \<Rightarrow> (Some (DbError e), a1)
            | Inr d' \<Rightarrow>
                (None, a1\<lparr> db := d',
                           videos := applyUpdatesMap (map (\<lambda>c. (videoId c, state c)) B) (videos a1),
                           undoStack := U \<rparr>))"
  unfolding handleUndo_def Let_def assms butlast_snoc last_snoc
  by (simp only: snoc_eq_iff_butlast append_is_Nil_conv list.distinct simp_thms if_False)

lemma handleRedo_unfold:
  assumes "redoStack a = R @ [B]"
      and "a1 = (if currentStates B (videos a) \<noteq> []
                 then a\<lparr>undoStack := undoStack a @ [currentStates B (videos a)]\<rparr> else a)"
  shows "handleRedo a =
           (case batchUpdateVideos (map state B) (db a1) of
              Inl e \<Rightarrow> (Some (DbError e), a1)
            | Inr d' \<Rightarrow>
                (None, a1\<lparr> db := d',
                           videos := applyUpdatesMap (map (\<lambda>c. (videoId c, state c)) B) (videos a1),
                           redoStack := R \<rparr>))"
  unfolding handleRedo_def Let_def assms butlast_snoc last_snoc
  by (simp only: snoc_eq_iff_butlast append_is_Nil_conv list.distinct simp_thms if_False)

lemma undo_batch:
  assumes d: "distinct (map id' vs)" and sub: "set T \<subseteq> set vs" and ne: "T \<noteq> []"
      and pf: "\<forall>v\<in>set vs. id' (f v) = id' v" and ph: "\<forall>v\<in>set vs. id' (h v) = id' v"
      and vs: "videos a = map f vs"
      and st: "undoStack a = U @ [map (\<lambda>x. \<lparr>videoId = id' x, state = h x\<rparr>) T]"
      and r: "handleUndo a = (None, a')"
  shows "videos a' = map (\<lambda>v. if v \<in> set T then h v else f v) vs \<and>
         undoStack a' = U \<and>
         redoStack a' = redoStack a @ [map (\<lambda>x. \<lparr>videoId = id' x, state = f x\<rparr>) T] \<and>
         (\<forall>x\<in>set T. videoMetadata (h x) \<in> set (VIDEOS (db a')))"
proof -
  let ?B = "map (\<lambda>x. \<lparr>videoId = id' x, state = h x\<rparr>) T"
  have cs: "currentStates ?B (videos a) = map (\<lambda>x. \<lparr>videoId = id' x, state = f x\<rparr>) T"
    unfolding vs by (rule currentStates_map[OF d sub pf])
  define a1 where "a1 = a\<lparr>redoStack := redoStack a @ [map (\<lambda>x. \<lparr>videoId = id' x, state = f x\<rparr>) T]\<rparr>"
  have a1: "a1 = (if currentStates ?B (videos a) \<noteq> []
                 then a\<lparr>redoStack := redoStack a @ [currentStates ?B (videos a)]\<rparr> else a)"
    using ne by (simp add: cs a1_def)
  note unf = handleUndo_unfold[OF st a1]
  have ms: "map state ?B = map h T" by (simp add: comp_def)
  have mp: "map (\<lambda>c. (videoId c, state c)) ?B = map (\<lambda>x. (id' x, h x)) T" by (simp add: comp_def)
  from r obtain d' where ok: "batchUpdateVideos (map h T) (db a1) = Inr d'"
    and a': "a' = a1\<lparr> db := d', videos := applyUpdatesMap (map (\<lambda>x. (id' x, h x)) T) (videos a1), undoStack := U \<rparr>"
    unfolding unf ms mp by (cases "batchUpdateVideos (map h T) (db a1)") auto
  have v1: "videos a1 = map f vs" by (simp add: a1_def vs)
  have "videos a' = map (\<lambda>v. if v \<in> set T then h v else f v) vs"
    unfolding a' using applyUpdatesMap_on_map[OF d sub pf, of h] by (simp add: v1)
  moreover have "undoStack a' = U" unfolding a' by simp
  moreover have "redoStack a' = redoStack a @ [map (\<lambda>x. \<lparr>videoId = id' x, state = f x\<rparr>) T]"
    unfolding a' by (simp add: a1_def)
  moreover have "\<forall>x\<in>set T. videoMetadata (h x) \<in> set (VIDEOS (db a'))"
    using batch_stores_all[OF d sub ph ok] unfolding a' by simp
  ultimately show ?thesis by blast
qed

lemma redo_batch:
  assumes d: "distinct (map id' vs)" and sub: "set T \<subseteq> set vs" and ne: "T \<noteq> []"
      and pf: "\<forall>v\<in>set vs. id' (f v) = id' v" and ph: "\<forall>v\<in>set vs. id' (h v) = id' v"
      and vs: "videos a = map f vs"
      and st: "redoStack a = R @ [map (\<lambda>x. \<lparr>videoId = id' x, state = h x\<rparr>) T]"
      and r: "handleRedo a = (None, a')"
  shows "videos a' = map (\<lambda>v. if v \<in> set T then h v else f v) vs \<and>
         redoStack a' = R \<and>
         undoStack a' = undoStack a @ [map (\<lambda>x. \<lparr>videoId = id' x, state = f x\<rparr>) T] \<and>
         (\<forall>x\<in>set T. videoMetadata (h x) \<in> set (VIDEOS (db a')))"
proof -
  let ?B = "map (\<lambda>x. \<lparr>videoId = id' x, state = h x\<rparr>) T"
  have cs: "currentStates ?B (videos a) = map (\<lambda>x. \<lparr>videoId = id' x, state = f x\<rparr>) T"
    unfolding vs by (rule currentStates_map[OF d sub pf])
  define a1 where "a1 = a\<lparr>undoStack := undoStack a @ [map (\<lambda>x. \<lparr>videoId = id' x, state = f x\<rparr>) T]\<rparr>"
  have a1: "a1 = (if currentStates ?B (videos a) \<noteq> []
                 then a\<lparr>undoStack := undoStack a @ [currentStates ?B (videos a)]\<rparr> else a)"
    using ne by (simp add: cs a1_def)
  note unf = handleRedo_unfold[OF st a1]
  have ms: "map state ?B = map h T" by (simp add: comp_def)
  have mp: "map (\<lambda>c. (videoId c, state c)) ?B = map (\<lambda>x. (id' x, h x)) T" by (simp add: comp_def)
  from r obtain d' where ok: "batchUpdateVideos (map h T) (db a1) = Inr d'"
    and a': "a' = a1\<lparr> db := d', videos := applyUpdatesMap (map (\<lambda>x. (id' x, h x)) T) (videos a1), redoStack := R \<rparr>"
    unfolding unf ms mp by (cases "batchUpdateVideos (map h T) (db a1)") auto
  have v1: "videos a1 = map f vs" by (simp add: a1_def vs)
  have "videos a' = map (\<lambda>v. if v \<in> set T then h v else f v) vs"
    unfolding a' using applyUpdatesMap_on_map[OF d sub pf, of h] by (simp add: v1)
  moreover have "redoStack a' = R" unfolding a' by simp
  moreover have "undoStack a' = undoStack a @ [map (\<lambda>x. \<lparr>videoId = id' x, state = f x\<rparr>) T]"
    unfolding a' by (simp add: a1_def)
  moreover have "\<forall>x\<in>set T. videoMetadata (h x) \<in> set (VIDEOS (db a'))"
    using batch_stores_all[OF d sub ph ok] unfolding a' by simp
  ultimately show ?thesis by blast
qed

text \<open>
  Claim C5. Let the identifiers of the records in memory be distinct and, in batch edit
  mode, let the displayed records be records of the library. When an edit, single or
  batch, is committed (the undo stack changes and the database accepts the write), the
  redo stack is empty afterwards and the pushed entry holds the affected records as they
  were. An undo that the database accepts then gives back the records in memory exactly
  as before the commit, pops the entry, and stores every snapshot in the database; the
  entry it pushes on the redo stack holds the affected records as they were after the
  commit. A redo that the database accepts brings back the records in memory exactly as
  after the commit, restores the undo stack, empties the redo stack and stores the
  post-commit records. Undo and redo on an empty stack change nothing.
\<close>

theorem undo_redo_roundtrip:
  assumes d: "distinct (map id' (videos a))"
      and t: "isBatchEditMode a \<longrightarrow> set displayed \<subseteq> set (videos a)"
      and c: "handleUpdateVideo displayed updatedVideo a = (None, a1)"
      and p: "undoStack a1 \<noteq> undoStack a"
      and u: "handleUndo a1 = (None, a2)"
      and r: "handleRedo a2 = (None, a3)"
  shows "redoStack a1 = [] \<and>
         (\<forall>c\<in>set (last (undoStack a1)). findById (videos a) (videoId c) = Some (state c)) \<and>
         videos a2 = videos a \<and> undoStack a2 = undoStack a \<and>
         (\<forall>c\<in>set (last (undoStack a1)). videoMetadata (state c) \<in> set (VIDEOS (db a2))) \<and>
         (\<forall>c\<in>set (last (redoStack a2)). findById (videos a1) (videoId c) = Some (state c)) \<and>
         videos a3 = videos a1 \<and> undoStack a3 = undoStack a1 \<and> redoStack a3 = [] \<and>
         (\<forall>c\<in>set (last (redoStack a2)). videoMetadata (state c) \<in> set (VIDEOS (db a3))) \<and>
         (undoStack b = [] \<longrightarrow> handleUndo b = (None, b)) \<and>
         (redoStack b = [] \<longrightarrow> handleRedo b = (None, b))"
proof -
  from commit_form[OF d t c p] obtain T g where
    ne: "T \<noteq> []" and sub: "set T \<subseteq> set (videos a)"
    and pg: "\<forall>v\<in>set (videos a). id' (g v) = id' v"
    and v1: "videos a1 = map (\<lambda>v. if v \<in> set T then g v else v) (videos a)"
    and u1: "undoStack a1 = undoStack a @ [map (\<lambda>x. \<lparr>videoId = id' x, state = x\<rparr>) T]"
    and r1: "redoStack a1 = []"
    by blast
  define f where "f = (\<lambda>v. if v \<in> set T then g v else v)"
  have pf: "\<forall>v\<in>set (videos a). id' (f v) = id' v" using pg by (simp add: f_def)
  have pi: "\<forall>v\<in>set (videos a). id' ((\<lambda>v. v) v) = id' v" by simp
  have v1': "videos a1 = map f (videos a)" by (simp add: v1 f_def)
  from undo_batch[OF d sub ne pf pi v1' u1 u]
  have v2: "videos a2 = map (\<lambda>v. if v \<in> set T then v else f v) (videos a)"
    and u2: "undoStack a2 = undoStack a"
    and r2: "redoStack a2 = [] @ [map (\<lambda>x. \<lparr>videoId = id' x, state = f x\<rparr>) T]"
    and s2: "\<forall>x\<in>set T. videoMetadata x \<in> set (VIDEOS (db a2))"
    by (simp_all add: r1)
  have v2': "videos a2 = videos a"
    unfolding v2 by (rule map_idI) (simp add: f_def)
  have v2'': "videos a2 = map (\<lambda>v. v) (videos a)" using v2' by simp
  from redo_batch[OF d sub ne pi pf v2'' r2 r]
  have v3: "videos a3 = map (\<lambda>v. if v \<in> set T then f v else v) (videos a)"
    and r3: "redoStack a3 = []"
    and u3: "undoStack a3 = undoStack a2 @ [map (\<lambda>x. \<lparr>videoId = id' x, state = x\<rparr>) T]"
    and s3: "\<forall>x\<in>set T. videoMetadata (f x) \<in> set (VIDEOS (db a3))"
    by simp_all
  have v3': "videos a3 = videos a1"
    unfolding v3 v1' by (rule map_cong[OF refl]) (simp add: f_def)
  have l1: "last (undoStack a1) = map (\<lambda>x. \<lparr>videoId = id' x, state = x\<rparr>) T" by (simp add: u1)
  have l2: "last (redoStack a2) = map (\<lambda>x. \<lparr>videoId = id' x, state = f x\<rparr>) T" by (simp add: r2)
  have f0: "findById (videos a) (id' x) = Some x" if "x \<in> set T" for x
    using findById_map[OF d pi, of x] that sub by auto
  have f1: "findById (videos a1) (id' x) = Some (f x)" if "x \<in> set T" for x
    unfolding v1' using findById_map[OF d pf, of x] that sub by auto
  have n1: "handleUndo b = (None, b)" if "undoStack b = []" using that by (simp add: handleUndo_def)
  have n2: "handleRedo b = (None, b)" if "redoStack b = []" using that by (simp add: handleRedo_def)
  show ?thesis
    using r1 v2' u2 v3' u3 r3 s2 s3 f0 f1 n1 n2
    by (simp add: l1 l2 u1)
qed

lemmas sample_eval =
  handleUpdateVideo_def handleUndo_def handleRedo_def findById_def currentStates_def
  applyUpdatesMap_def batchUpdateVideos_def updateVideo_def upsertVideo_def store_put_def
  index_conflict_def videoMetadata_def playedUnseen_def sample_app_def sample_db_def
  sample_video_def sample_video2_def Let_def

text \<open>
  Rating the first record of the sample library 3 in single edit mode, then undo, then
  redo.
\<close>

theorem undo_redo_roundtrip_witness:
  "videos (snd (handleUpdateVideo [] (sample_video\<lparr>rating := 3\<rparr>) sample_app))
     = [sample_video\<lparr>rating := 3\<rparr>, sample_video2] \<and>
   videos (snd (handleUndo (snd (handleUpdateVideo [] (sample_video\<lparr>rating := 3\<rparr>) sample_app))))
     = [sample_video, sample_video2] \<and>
   videos (snd (handleRedo (snd (handleUndo (snd (handleUpdateVideo [] (sample_video\<lparr>rating := 3\<rparr>) sample_app))))))
     = [sample_video\<lparr>rating := 3\<rparr>, sample_video2] \<and>
   redoStack (snd (handleRedo (snd (handleUndo (snd (handleUpdateVideo [] (sample_video\<lparr>rating := 3\<rparr>) sample_app))))))
     = []"
proof -
  let ?h1 = "handleUpdateVideo [] (sample_video\<lparr>rating := 3\<rparr>) sample_app"
  let ?h2 = "handleUndo (snd ?h1)"
  let ?h3 = "handleRedo (snd ?h2)"
  have e1: "?h1 = (None, sample_app\<lparr> undoStack := [[\<lparr>videoId = ''v1'', state = sample_video\<rparr>]],
                        db := sample_db\<lparr>VIDEOS := [sample_video\<lparr>rating := 3\<rparr>, sample_video2]\<rparr>,
                        videos := [sample_video\<lparr>rating := 3\<rparr>, sample_video2] \<rparr>)"
    by (simp add: sample_eval)
  have f2: "fst ?h2 = None" unfolding e1 by (simp add: sample_eval)
  have f3: "fst ?h3 = None" unfolding e1 by (simp add: sample_eval)
  have d: "distinct (map id' (videos sample_app))" by (simp add: sample_eval)
  have t: "isBatchEditMode sample_app \<longrightarrow> set [] \<subseteq> set (videos sample_app)" by simp
  have c: "?h1 = (None, snd ?h1)" unfolding e1 by simp
  have p: "undoStack (snd ?h1) \<noteq> undoStack sample_app" unfolding e1 by (simp add: sample_app_def)
  have u: "?h2 = (None, snd ?h2)" using f2 by (simp add: prod_eq_iff)
  have r: "?h3 = (None, snd ?h3)" using f3 by (simp add: prod_eq_iff)
  from undo_redo_roundtrip[OF d t c p u r]
  have "videos (snd ?h2) = videos sample_app" "videos (snd ?h3) = videos (snd ?h1)"
    "redoStack (snd ?h3) = []" by blast+
  moreover have "videos (snd ?h1) = [sample_video\<lparr>rating := 3\<rparr>, sample_video2]"
    unfolding e1 by simp
  moreover have "videos sample_app = [sample_video, sample_video2]" by (simp add: sample_app_def)
  ultimately show ?thesis by simp
qed

section \<open>Proofs: the seen rule of handleUpdateVideo\<close>

lemma spreadChanges_append: "spreadChanges t (xs @ ys) = spreadChanges (spreadChanges t xs) ys"
  by (induction xs arbitrary: t) auto

lemma spread_if:
  "spreadChanges t (if c then [ChThumbnail x1] else []) = t\<lparr>thumbnail := if c then x1 else thumbnail t\<rparr>"
  "spreadChanges t (if c then [ChDescription x2] else []) = t\<lparr>description := if c then x2 else description t\<rparr>"
  "spreadChanges t (if c then [ChRating x3] else []) = t\<lparr>rating := if c then x3 else rating t\<rparr>"
  "spreadChanges t (if c then [ChSeen x4] else []) = t\<lparr>seen := if c then x4 else seen t\<rparr>"
  "spreadChanges t (if c then [ChTags x5] else []) = t\<lparr>tags := if c then x5 else tags t\<rparr>"
  "spreadChanges t (if c then [ChHearted x6] else []) = t\<lparr>hearted := if c then x6 else hearted t\<rparr>"
  "spreadChanges t (if c then [ChHidden x7] else []) = t\<lparr>hidden := if c then x7 else hidden t\<rparr>"
  "spreadChanges t (if c then [ChDeleted x8] else []) = t\<lparr>deleted := if c then x8 else deleted t\<rparr>"
  "spreadChanges t (if c then [ChTitle x9] else []) = t\<lparr>title := if c then x9 else title t\<rparr>"
  "spreadChanges t (if c then [ChContentHash x10] else []) = t\<lparr>contentHash := if c then x10 else contentHash t\<rparr>"
  by simp_all

text \<open>The change set of batch edit mode for an update that carries the seen rule, spread
  over a target: the fields that differ between the previous state and the update are
  taken from the update, seen is true, and every other field is the target's.\<close>

lemma spread_played:
  "spreadChanges t (changedFields p u @ [ChSeen True]) =
     t\<lparr> thumbnail := if thumbnail p \<noteq> thumbnail u then thumbnail u else thumbnail t,
        description := if description p \<noteq> description u then description u else description t,
        rating := if rating p \<noteq> rating u then rating u else rating t,
        seen := True,
        tags := if tags p \<noteq> tags u then tags u else tags t,
        hearted := if hearted p \<noteq> hearted u then hearted u else hearted t,
        hidden := if hidden p \<noteq> hidden u then hidden u else hidden t,
        deleted := if deleted p \<noteq> deleted u then deleted u else deleted t,
        title := if title p \<noteq> title u then title u else title t,
        contentHash := if contentHash p \<noteq> contentHash u then contentHash u else contentHash t \<rparr>"
  unfolding changedFields_def spreadChanges_append spread_if
  by simp

text \<open>
  Claim C6, amended. Let an update carry a playback position above one second for a
  record of the library whose seen flag is false. In single edit mode the handler pushes
  exactly one history entry, the snapshot of the record before the update, and the
  record it commits to memory and to the database is the update with seen set. In batch
  edit mode the update itself is not committed: seen = true joins the one change set,
  made of the fields in which the update differs from the record (the playback position
  is not one of them), and that change set is applied to every displayed record. Either
  nothing is committed (no record is displayed, or the database rejects the batch) and
  the state is unchanged, or one history batch with the snapshots of all displayed
  records is pushed; then every displayed record is, in memory and in the database, the
  record it was with the change set applied and seen true, every record that is not
  displayed is unchanged, and the updated record is marked seen only if it is displayed,
  its stored playback position being the old one in either case. In both modes the undo
  stack grows by at most one entry.
\<close>

theorem playback_marks_seen_in_same_entry:
  assumes "findById (videos a) (id' updatedVideo) = Some previousState"
      and "\<not> seen previousState"
      and "currentTime updatedVideo = Some t" and "1 < t"
      and "handleUpdateVideo displayed updatedVideo a = (e, a')"
  shows "(\<not> isBatchEditMode a \<longrightarrow>
            undoStack a' = undoStack a @ [[\<lparr>videoId = id' updatedVideo, state = previousState\<rparr>]] \<and>
            redoStack a' = [] \<and>
            (e = None \<longrightarrow>
               findById (videos a') (id' updatedVideo) = Some (updatedVideo\<lparr>seen := True\<rparr>) \<and>
               videoMetadata (updatedVideo\<lparr>seen := True\<rparr>) \<in> set (VIDEOS (db a'))))
       \<and> (isBatchEditMode a \<longrightarrow>
            ((displayed = [] \<or> e \<noteq> None) \<longrightarrow> a' = a) \<and>
            (displayed \<noteq> [] \<and> e = None \<longrightarrow>
               undoStack a' = undoStack a @ [map (\<lambda>x. \<lparr>videoId = id' x, state = x\<rparr>) displayed] \<and>
               redoStack a' = [] \<and>
               (\<forall>v\<in>set (videos a'). id' v \<in> id' ` set displayed \<longrightarrow> seen v) \<and>
               (\<forall>x\<in>set displayed. \<exists>w\<in>set (VIDEOS (db a')). id' w = id' x \<and> seen w)))
       \<and> (isBatchEditMode a \<and> distinct (map id' (videos a)) \<and> set displayed \<subseteq> set (videos a) \<and>
           displayed \<noteq> [] \<and> e = None \<longrightarrow>
            (\<forall>v\<in>set (videos a). v \<notin> set displayed \<longrightarrow> findById (videos a') (id' v) = Some v) \<and>
            (\<forall>v\<in>set displayed.
               (let w = v\<lparr> thumbnail := if thumbnail previousState \<noteq> thumbnail updatedVideo
                                          then thumbnail updatedVideo else thumbnail v,
                            description := if description previousState \<noteq> description updatedVideo
                                            then description updatedVideo else description v,
                            rating := if rating previousState \<noteq> rating updatedVideo
                                       then rating updatedVideo else rating v,
                            seen := True,
                            tags := if tags previousState \<noteq> tags updatedVideo
                                     then tags updatedVideo else tags v,
                            hearted := if hearted previousState \<noteq> hearted updatedVideo
                                        then hearted updatedVideo else hearted v,
                            hidden := if hidden previousState \<noteq> hidden updatedVideo
                                       then hidden updatedVideo else hidden v,
                            deleted := if deleted previousState \<noteq> deleted updatedVideo
                                        then deleted updatedVideo else deleted v,
                            title := if title previousState \<noteq> title updatedVideo
                                      then title updatedVideo else title v,
                            contentHash := if contentHash previousState \<noteq> contentHash updatedVideo
                                            then contentHash updatedVideo else contentHash v \<rparr>
                in findById (videos a') (id' v) = Some w \<and> videoMetadata w \<in> set (VIDEOS (db a')))) \<and>
            (previousState \<notin> set displayed \<longrightarrow>
               findById (videos a') (id' updatedVideo) = Some previousState) \<and>
            (previousState \<in> set displayed \<longrightarrow>
               (\<exists>w. findById (videos a') (id' updatedVideo) = Some w \<and> seen w \<and>
                    currentTime w = currentTime previousState)))
       \<and> length (undoStack a') \<le> Suc (length (undoStack a))"
proof -
  have pu: "playedUnseen updatedVideo previousState"
    using assms(2,3,4) by (simp add: playedUnseen_def)
  let ?u = "updatedVideo\<lparr>seen := True\<rparr>"
  have ne: "previousState \<noteq> ?u" using assms(2) by (auto dest: arg_cong[where f = seen])
  have single: "undoStack a' = undoStack a @ [[\<lparr>videoId = id' updatedVideo, state = previousState\<rparr>]] \<and>
            redoStack a' = [] \<and>
            (e = None \<longrightarrow>
               findById (videos a') (id' updatedVideo) = Some ?u \<and>
               videoMetadata ?u \<in> set (VIDEOS (db a')))"
    if nb: "\<not> isBatchEditMode a"
  proof (cases "updateVideo ?u (db a)")
    case (Inl err)
    then show ?thesis using assms(1,5) nb pu ne
      by (auto simp: handleUpdateVideo_def Let_def)
  next
    case (Inr d')
    have m: "videoMetadata ?u \<in> set (VIDEOS d')"
      using Inr by (auto simp: updateVideo_def upsertVideo_def split: option.splits dest: store_put_new)
    have f: "findById (map (\<lambda>v. if id' v = id' updatedVideo then ?u else v) (videos a)) (id' updatedVideo) = Some ?u"
      by (rule findById_replaced[OF assms(1)]) simp
    show ?thesis using assms(1,5) nb pu ne Inr m f
      by (auto simp: handleUpdateVideo_def Let_def cong: if_cong)
  qed
  let ?changes = "changedFields previousState updatedVideo @ [ChSeen True]"
  let ?g = "\<lambda>x. spreadChanges x ?changes"
  let ?ups = "map ?g displayed"
  have rejected: "a' = a \<and> e \<noteq> None"
    if b: "isBatchEditMode a" and False: "displayed \<noteq> []" and Inl: "batchUpdateVideos ?ups (db a) = Inl err" for err
    using assms(1,5) b pu False Inl by (auto simp: handleUpdateVideo_def Let_def)
  have committed: "a' = showToast (''Applied changes to '' @ string_of_nat (length ?ups) @ '' videos.'')
                  ToastSuccess
                  (a\<lparr> db := d',
                      videos := applyUpdatesMap (map (\<lambda>v. (id' v, v)) ?ups) (videos a),
                      undoStack := undoStack a @ [map (\<lambda>x. \<lparr>videoId = id' x, state = x\<rparr>) displayed],
                      redoStack := [] \<rparr>) \<and> e = None"
    if b: "isBatchEditMode a" and False: "displayed \<noteq> []" and Inr: "batchUpdateVideos ?ups (db a) = Inr d'" for d'
    using assms(1,5) b pu False Inr by (simp_all add: handleUpdateVideo_def Let_def del: string_of_nat.simps)
  have batch: "((displayed = [] \<or> e \<noteq> None) \<longrightarrow> a' = a) \<and>
            (displayed \<noteq> [] \<and> e = None \<longrightarrow>
               undoStack a' = undoStack a @ [map (\<lambda>x. \<lparr>videoId = id' x, state = x\<rparr>) displayed] \<and>
               redoStack a' = [] \<and>
               (\<forall>v\<in>set (videos a'). id' v \<in> id' ` set displayed \<longrightarrow> seen v) \<and>
               (\<forall>x\<in>set displayed. \<exists>w\<in>set (VIDEOS (db a')). id' w = id' x \<and> seen w))"
    if b: "isBatchEditMode a"
  proof (cases "displayed = []")
    case True
    then show ?thesis using assms(1,5) b pu by (simp add: handleUpdateVideo_def Let_def)
  next
    case False
    show ?thesis
    proof (cases "batchUpdateVideos ?ups (db a)")
      case (Inl err)
      from rejected[OF b False Inl] show ?thesis by simp
    next
      case (Inr d')
      from committed[OF b False Inr]
      have a': "a' = showToast (''Applied changes to '' @ string_of_nat (length ?ups) @ '' videos.'')
                  ToastSuccess
                  (a\<lparr> db := d',
                      videos := applyUpdatesMap (map (\<lambda>v. (id' v, v)) ?ups) (videos a),
                      undoStack := undoStack a @ [map (\<lambda>x. \<lparr>videoId = id' x, state = x\<rparr>) displayed],
                      redoStack := [] \<rparr>)"
        and e: "e = None" by simp_all
      have put: "put_all (map videoMetadata ?ups) (VIDEOS (db a)) = Some (VIDEOS d')"
        using Inr False by (auto simp: batchUpdateVideos_def split: option.splits)
      have mem: "seen v" if v: "v \<in> set (videos a')" and i: "id' v \<in> id' ` set displayed" for v
      proof -
        from v have "v \<in> set (applyUpdatesMap (map (\<lambda>v. (id' v, v)) ?ups) (videos a))"
          by (simp add: a' showToast_def)
        from applyUpdatesMap_cases[OF this] i show ?thesis
          by (auto simp: id_spreadChanges seen_spreadChanges image_iff)
      qed
      have dbs: "\<exists>w\<in>set (VIDEOS (db a')). id' w = id' x \<and> seen w" if x: "x \<in> set displayed" for x
      proof -
        have "videoMetadata (spreadChanges x ?changes) \<in> set (map videoMetadata ?ups)"
          using x by auto
        from put_all_last[OF put this] obtain r where
          "r \<in> set (VIDEOS d')" "id' r = id' (videoMetadata (spreadChanges x ?changes))"
          "r \<in> set (map videoMetadata ?ups)" by blast
        then show ?thesis
          by (auto simp: a' showToast_def videoMetadata_def id_spreadChanges seen_spreadChanges)
      qed
      show ?thesis using False e mem dbs by (simp add: a' showToast_def)
    qed
  qed
  have exact:
    "(\<forall>v\<in>set (videos a). v \<notin> set displayed \<longrightarrow> findById (videos a') (id' v) = Some v) \<and>
     (\<forall>v\<in>set displayed. findById (videos a') (id' v) = Some (?g v) \<and>
                          videoMetadata (?g v) \<in> set (VIDEOS (db a')))"
    if b: "isBatchEditMode a" and d: "distinct (map id' (videos a))"
      and sub: "set displayed \<subseteq> set (videos a)" and False: "displayed \<noteq> []" and en: "e = None"
  proof (cases "batchUpdateVideos ?ups (db a)")
    case (Inl err)
    from rejected[OF b False Inl] en show ?thesis by simp
  next
    case (Inr d')
    let ?F = "\<lambda>v. if v \<in> set displayed then ?g v else v"
    from committed[OF b False Inr]
    have vs: "videos a' = applyUpdatesMap (map (\<lambda>v. (id' v, v)) ?ups) (videos a)"
      and da: "db a' = d'"
      by (simp_all add: showToast_def)
    have pairs: "map (\<lambda>v. (id' v, v)) ?ups = map (\<lambda>x. (id' x, ?g x)) displayed"
      by (simp add: id_spreadChanges)
    have "applyUpdatesMap (map (\<lambda>x. (id' x, ?g x)) displayed) (map (\<lambda>v. v) (videos a))
            = map ?F (videos a)"
      by (rule applyUpdatesMap_on_map[OF d sub]) simp
    then have vs': "videos a' = map ?F (videos a)" unfolding vs pairs by simp
    have idF: "\<forall>v\<in>set (videos a). id' (?F v) = id' v" by (simp add: id_spreadChanges)
    have look: "findById (videos a') (id' x) = Some (?F x)" if "x \<in> set (videos a)" for x
      unfolding vs' by (rule findById_map[OF d idF that])
    have idg: "\<forall>v\<in>set (videos a). id' (?g v) = id' v" by (simp add: id_spreadChanges)
    have stored: "videoMetadata (?g x) \<in> set (VIDEOS (db a'))" if "x \<in> set displayed" for x
      unfolding da by (rule batch_stores_all[OF d sub idg Inr that])
    show ?thesis using look stored sub by auto
  qed
  have exact': "(\<forall>v\<in>set (videos a). v \<notin> set displayed \<longrightarrow> findById (videos a') (id' v) = Some v) \<and>
            (\<forall>v\<in>set displayed.
               (let w = v\<lparr> thumbnail := if thumbnail previousState \<noteq> thumbnail updatedVideo
                                          then thumbnail updatedVideo else thumbnail v,
                            description := if description previousState \<noteq> description updatedVideo
                                            then description updatedVideo else description v,
                            rating := if rating previousState \<noteq> rating updatedVideo
                                       then rating updatedVideo else rating v,
                            seen := True,
                            tags := if tags previousState \<noteq> tags updatedVideo
                                     then tags updatedVideo else tags v,
                            hearted := if hearted previousState \<noteq> hearted updatedVideo
                                        then hearted updatedVideo else hearted v,
                            hidden := if hidden previousState \<noteq> hidden updatedVideo
                                       then hidden updatedVideo else hidden v,
                            deleted := if deleted previousState \<noteq> deleted updatedVideo
                                        then deleted updatedVideo else deleted v,
                            title := if title previousState \<noteq> title updatedVideo
                                      then title updatedVideo else title v,
                            contentHash := if contentHash previousState \<noteq> contentHash updatedVideo
                                            then contentHash updatedVideo else contentHash v \<rparr>
                in findById (videos a') (id' v) = Some w \<and> videoMetadata w \<in> set (VIDEOS (db a')))) \<and>
            (previousState \<notin> set displayed \<longrightarrow>
               findById (videos a') (id' updatedVideo) = Some previousState) \<and>
            (previousState \<in> set displayed \<longrightarrow>
               (\<exists>w. findById (videos a') (id' updatedVideo) = Some w \<and> seen w \<and>
                    currentTime w = currentTime previousState))"
    if b: "isBatchEditMode a" and d: "distinct (map id' (videos a))"
      and sub: "set displayed \<subseteq> set (videos a)" and False: "displayed \<noteq> []" and en: "e = None"
  proof -
    note ex = exact[OF that]
    from findById_Some[OF assms(1)] have pm: "previousState \<in> set (videos a)"
      and pi: "id' previousState = id' updatedVideo" by simp_all
    have 1: "\<forall>v\<in>set (videos a). v \<notin> set displayed \<longrightarrow> findById (videos a') (id' v) = Some v"
      using ex by blast
    have 2: "findById (videos a') (id' v) = Some (?g v) \<and> videoMetadata (?g v) \<in> set (VIDEOS (db a'))"
      if "v \<in> set displayed" for v using ex that by blast
    have 3: "previousState \<notin> set displayed \<longrightarrow> findById (videos a') (id' updatedVideo) = Some previousState"
      using 1 pm pi by metis
    have 4: "previousState \<in> set displayed \<longrightarrow>
               (\<exists>w. findById (videos a') (id' updatedVideo) = Some w \<and> seen w \<and>
                    currentTime w = currentTime previousState)"
    proof
      assume "previousState \<in> set displayed"
      from 2[OF this] have "findById (videos a') (id' updatedVideo) = Some (?g previousState)"
        using pi by simp
      moreover have "seen (?g previousState)" "currentTime (?g previousState) = currentTime previousState"
        by (simp_all add: spread_played)
      ultimately show "\<exists>w. findById (videos a') (id' updatedVideo) = Some w \<and> seen w \<and>
                    currentTime w = currentTime previousState" by blast
    qed
    from 1 2 3 4 show ?thesis unfolding Let_def spread_played[symmetric] by blast
  qed
  have len: "length (undoStack a') \<le> Suc (length (undoStack a))"
  proof (cases "isBatchEditMode a")
    case True
    from batch[OF True] show ?thesis by (cases "displayed = [] \<or> e \<noteq> None") auto
  next
    case False
    from single[OF False] show ?thesis by simp
  qed
  from single batch exact' len show ?thesis by blast
qed

lemma batch_find: "findById (videos batch_app) (id' (sample_video\<lparr>currentTime := Some 5\<rparr>)) = Some sample_video"
  by (simp add: findById_def batch_app_def sample_app_def sample_video_def sample_video2_def)

lemma batch_other:
  "fst (handleUpdateVideo [sample_video2] (sample_video\<lparr>currentTime := Some 5\<rparr>) batch_app) = None"
  "videos (snd (handleUpdateVideo [sample_video2] (sample_video\<lparr>currentTime := Some 5\<rparr>) batch_app))
     = [sample_video, sample_video2\<lparr>seen := True\<rparr>]"
  "undoStack (snd (handleUpdateVideo [sample_video2] (sample_video\<lparr>currentTime := Some 5\<rparr>) batch_app))
     = [[\<lparr>videoId = ''v2'', state = sample_video2\<rparr>]]"
  by (simp_all add: handleUpdateVideo_def findById_def batch_app_def sample_app_def sample_video_def
      sample_video2_def sample_db_def playedUnseen_def changedFields_def batchUpdateVideos_def
      store_put_def index_conflict_def videoMetadata_def applyUpdatesMap_def showToast_def Let_def)

text \<open>
  Claim C6 says that the committed update sets seen on the record that was played. The
  sample library is in batch edit mode and only its second record is displayed; the
  player reports a position of five seconds for the first record, which is unseen.
  The handler applies the change set seen = true to the displayed records: the second
  record is marked seen, the first record stays unseen and its position is not saved.
\<close>

theorem batch_playback_marks_other_record_counterexample:
  "isBatchEditMode batch_app \<and>
   findById (videos batch_app) ''v1'' = Some sample_video \<and> \<not> seen sample_video \<and>
   fst (handleUpdateVideo [sample_video2] (sample_video\<lparr>currentTime := Some 5\<rparr>) batch_app) = None \<and>
   findById (videos (snd (handleUpdateVideo [sample_video2] (sample_video\<lparr>currentTime := Some 5\<rparr>) batch_app))) ''v1''
     = Some sample_video \<and>
   findById (videos (snd (handleUpdateVideo [sample_video2] (sample_video\<lparr>currentTime := Some 5\<rparr>) batch_app))) ''v2''
     = Some (sample_video2\<lparr>seen := True\<rparr>) \<and>
   undoStack (snd (handleUpdateVideo [sample_video2] (sample_video\<lparr>currentTime := Some 5\<rparr>) batch_app))
     = [[\<lparr>videoId = ''v2'', state = sample_video2\<rparr>]]"
  by (simp add: batch_other)
     (simp add: findById_def batch_app_def sample_app_def sample_video_def sample_video2_def)

lemma sample_find: "findById (videos sample_app) (id' (sample_video\<lparr>currentTime := Some 5\<rparr>)) = Some sample_video"
  by (simp add: findById_def sample_app_def sample_video_def sample_video2_def)

lemma sample_single:
  "handleUpdateVideo [] (sample_video\<lparr>currentTime := Some 5\<rparr>) sample_app =
     (None, sample_app\<lparr> undoStack := [[\<lparr>videoId = ''v1'', state = sample_video\<rparr>]],
                        db := sample_db\<lparr>VIDEOS := [sample_video\<lparr>currentTime := Some 5, seen := True\<rparr>, sample_video2]\<rparr>,
                        videos := [sample_video\<lparr>currentTime := Some 5, seen := True\<rparr>, sample_video2] \<rparr>)"
  by (simp add: handleUpdateVideo_def findById_def sample_app_def sample_video_def sample_video2_def
      sample_db_def playedUnseen_def updateVideo_def upsertVideo_def store_put_def index_conflict_def
      videoMetadata_def Let_def)

lemma batch_find4:
  "findById (videos batch_app) (id' (sample_video\<lparr>currentTime := Some 5, rating := 4\<rparr>)) = Some sample_video"
  by (simp add: findById_def batch_app_def sample_app_def sample_video_def sample_video2_def)

lemma batch_both:
  "fst (handleUpdateVideo [sample_video, sample_video2] (sample_video\<lparr>currentTime := Some 5, rating := 4\<rparr>) batch_app) = None"
  "undoStack (snd (handleUpdateVideo [sample_video, sample_video2] (sample_video\<lparr>currentTime := Some 5, rating := 4\<rparr>) batch_app))
     = [[\<lparr>videoId = ''v1'', state = sample_video\<rparr>, \<lparr>videoId = ''v2'', state = sample_video2\<rparr>]]"
  by (simp_all add: handleUpdateVideo_def findById_def batch_app_def sample_app_def sample_video_def
      sample_video2_def sample_db_def playedUnseen_def changedFields_def batchUpdateVideos_def
      store_put_def index_conflict_def videoMetadata_def applyUpdatesMap_def showToast_def Let_def)

text \<open>
  Playing the first record of the sample library to five seconds. In single edit mode:
  one history entry, and the committed record is seen. In batch edit mode, with both
  records displayed and a rating of 4 in the same update: one history batch of two
  snapshots, and both records are rated 4 and seen, with their old playback position.
\<close>

theorem playback_marks_seen_in_same_entry_witness:
  "undoStack (snd (handleUpdateVideo [] (sample_video\<lparr>currentTime := Some 5\<rparr>) sample_app))
     = [[\<lparr>videoId = ''v1'', state = sample_video\<rparr>]] \<and>
   findById (videos (snd (handleUpdateVideo [] (sample_video\<lparr>currentTime := Some 5\<rparr>) sample_app))) ''v1''
     = Some (sample_video\<lparr>currentTime := Some 5, seen := True\<rparr>) \<and>
   undoStack (snd (handleUpdateVideo [sample_video, sample_video2]
                     (sample_video\<lparr>currentTime := Some 5, rating := 4\<rparr>) batch_app))
     = [[\<lparr>videoId = ''v1'', state = sample_video\<rparr>, \<lparr>videoId = ''v2'', state = sample_video2\<rparr>]] \<and>
   findById (videos (snd (handleUpdateVideo [sample_video, sample_video2]
                     (sample_video\<lparr>currentTime := Some 5, rating := 4\<rparr>) batch_app))) ''v1''
     = Some (sample_video\<lparr>rating := 4, seen := True\<rparr>) \<and>
   findById (videos (snd (handleUpdateVideo [sample_video, sample_video2]
                     (sample_video\<lparr>currentTime := Some 5, rating := 4\<rparr>) batch_app))) ''v2''
     = Some (sample_video2\<lparr>rating := 4, seen := True\<rparr>)"
proof -
  have s: "\<not> seen sample_video" by (simp add: sample_video_def)
  have c: "currentTime (sample_video\<lparr>currentTime := Some 5\<rparr>) = Some 5" by simp
  have b: "\<not> isBatchEditMode sample_app" by (simp add: sample_app_def)
  have i: "id' sample_video = ''v1''" "id' sample_video2 = ''v2''"
    by (simp_all add: sample_video_def sample_video2_def)
  from playback_marks_seen_in_same_entry[OF sample_find s c _ sample_single] b i
  have 1: "undoStack (snd (handleUpdateVideo [] (sample_video\<lparr>currentTime := Some 5\<rparr>) sample_app))
     = [[\<lparr>videoId = ''v1'', state = sample_video\<rparr>]] \<and>
   findById (videos (snd (handleUpdateVideo [] (sample_video\<lparr>currentTime := Some 5\<rparr>) sample_app))) ''v1''
     = Some (sample_video\<lparr>currentTime := Some 5, seen := True\<rparr>)"
    by (simp add: sample_single)
  let ?U = "sample_video\<lparr>currentTime := Some 5, rating := 4\<rparr>"
  let ?D = "[sample_video, sample_video2]"
  let ?r = "handleUpdateVideo ?D ?U batch_app"
  have c4: "currentTime ?U = Some 5" by simp
  have h: "?r = (fst ?r, snd ?r)" by simp
  have bm: "isBatchEditMode batch_app" by (simp add: batch_app_def sample_app_def)
  have di: "distinct (map id' (videos batch_app))"
    by (simp add: batch_app_def sample_app_def sample_video_def sample_video2_def)
  have su: "set ?D \<subseteq> set (videos batch_app)" by (simp add: batch_app_def sample_app_def)
  have r4: "rating sample_video \<noteq> rating ?U" by (simp add: sample_video_def)
  from playback_marks_seen_in_same_entry[OF batch_find4 s c4 _ h] bm di su batch_both(1)
  have all: "\<forall>v\<in>set ?D.
               (let w = v\<lparr> thumbnail := if thumbnail sample_video \<noteq> thumbnail ?U then thumbnail ?U else thumbnail v,
                            description := if description sample_video \<noteq> description ?U
                                            then description ?U else description v,
                            rating := if rating sample_video \<noteq> rating ?U then rating ?U else rating v,
                            seen := True,
                            tags := if tags sample_video \<noteq> tags ?U then tags ?U else tags v,
                            hearted := if hearted sample_video \<noteq> hearted ?U then hearted ?U else hearted v,
                            hidden := if hidden sample_video \<noteq> hidden ?U then hidden ?U else hidden v,
                            deleted := if deleted sample_video \<noteq> deleted ?U then deleted ?U else deleted v,
                            title := if title sample_video \<noteq> title ?U then title ?U else title v,
                            contentHash := if contentHash sample_video \<noteq> contentHash ?U
                                            then contentHash ?U else contentHash v \<rparr>
                in findById (videos (snd ?r)) (id' v) = Some w \<and> videoMetadata w \<in> set (VIDEOS (db (snd ?r))))"
    by simp
  have 2: "findById (videos (snd ?r)) ''v1'' = Some (sample_video\<lparr>rating := 4, seen := True\<rparr>)"
    using bspec[OF all, of sample_video] i r4 by (simp add: Let_def)
  have 3: "findById (videos (snd ?r)) ''v2'' = Some (sample_video2\<lparr>rating := 4, seen := True\<rparr>)"
    using bspec[OF all, of sample_video2] i r4 by (simp add: Let_def)
  from 1 2 3 batch_both(2) show ?thesis by simp
qed

section \<open>Proofs: SyncEngine\<close>

lemma lower_jpg: "toLowerCase ''pic.jpg'' = ''pic.jpg''"
  by (simp add: toLowerCase_def)

lemma jpg_name: "isJpgName ''pic.jpg''" "\<not> isNativelyPlayable ''pic.jpg''"
  by (simp_all add: isJpgName_def isNativelyPlayable_def endsWith_def lower_jpg playableExtensions_def)

lemma jpg_loaded: "getAllVideos jpg_db = [jpg_video]"
  by (simp add: getAllVideos_def jpg_db_def jpg_video_def sample_video_def applyVideoDefaults_def
      or_num_def or_false_def truthy_def or_null_string_def)

lemma jpg_plan:
  "videosToBatchUpdate sample_env [jpg_file] jpg_db
     = [jpg_video\<lparr>lastModified := 6, hidden := Some True, deleted := Some False\<rparr>]"
  by (simp add: videosToBatchUpdate_def jpg_loaded fileEntries_def foundFilePaths_def jpg_file_def
      existingVideosMap_def scanEntry_def newVideoData_def markNotFound_def jpg_name
      jpg_video_def sample_video_def or_num_def or_false_def truthy_def or_null_def or_string_def
      getAllMainThumbnails_def Let_def)

lemma jpg_gen: "videosForThumbGen sample_env [jpg_file] jpg_db = []"
  by (simp add: videosForThumbGen_def jpg_loaded fileEntries_def jpg_file_def
      existingVideosMap_def scanEntry_def jpg_name Let_def)

lemma jpg_put:
  "put_all [videoMetadata (jpg_video\<lparr>lastModified := 6, hidden := Some True, deleted := Some False\<rparr>)]
     (VIDEOS jpg_db)
   = Some [jpg_video\<lparr>lastModified := 6, hidden := Some True, deleted := Some False\<rparr>]"
  by (simp add: videoMetadata_def store_put_def index_conflict_def jpg_db_def jpg_video_def
      sample_video_def)

lemma jpg_scan:
  "scanFiles sample_env False [jpg_file] jpg_db
     = Inr (jpg_db\<lparr>VIDEOS := [jpg_video\<lparr>lastModified := 6, hidden := Some True, deleted := Some False\<rparr>]\<rparr>, [])"
  by (simp add: scanFiles_def jpg_plan jpg_gen batchUpdateVideos_def jpg_put del: put_all.simps)

text \<open>
  Claim C2 says that a sync pass never changes the hidden flag of a record whose path
  persists. The library holds one record, \<open>lib/pic.jpg\<close>, that the user has unhidden;
  the file is observed again with a newer modification time. The pass rewrites the
  record with \<^verbatim>\<open>hidden: existingVideo?.hidden || isJpg\<close>, and the record is hidden again.
\<close>

theorem scan_rehides_jpg_counterexample:
  "map relativePath (getAllVideos jpg_db) = [''lib/pic.jpg''] \<and>
   map hidden (getAllVideos jpg_db) = [Some False] \<and>
   map relativePath (getAllVideos (db_after_scan sample_env False [jpg_file] jpg_db)) = [''lib/pic.jpg''] \<and>
   map hidden (getAllVideos (db_after_scan sample_env False [jpg_file] jpg_db)) = [Some True]"
  by (simp add: db_after_scan_def jpg_scan jpg_loaded)
     (simp add: getAllVideos_def applyVideoDefaults_def jpg_video_def sample_video_def or_false_def truthy_def)

lemma or_null_fix: "\<not> (dur \<noteq> or_null dur \<and> or_null dur \<noteq> None)"
  by (auto simp: or_null_def split: option.splits if_splits)

lemma scanEntry_fst:
  "fst (scanEntry ex th u n f) =
     (if needsUpdate (ex (webkitRelativePath f)) th f
      then [newVideoData (ex (webkitRelativePath f)) u n f] else [])"
proof (cases "ex (webkitRelativePath f)")
  case None
  then show ?thesis by (simp add: scanEntry_def needsUpdate_def Let_def)
next
  case (Some e)
  then show ?thesis using or_null_fix[of "duration e"]
    by (auto simp: scanEntry_def needsUpdate_def Let_def)
qed

lemma scanLoop_mem:
  "w \<in> set (fst (scanLoop ex th env i fs)) \<Longrightarrow>
   \<exists>k<length fs. w \<in> set (fst (scanEntry ex th (randomUUID env (i + k)) (Date_now env (i + k)) (fs ! k)))"
proof (induction fs arbitrary: i)
  case Nil
  then show ?case by simp
next
  case (Cons f fs)
  show ?case
  proof (cases "w \<in> set (fst (scanEntry ex th (randomUUID env i) (Date_now env i) f))")
    case True
    then show ?thesis by (intro exI[of _ 0]) simp
  next
    case False
    then have "w \<in> set (fst (scanLoop ex th env (Suc i) fs))" using Cons.prems by simp
    from Cons.IH[OF this] obtain k where "k < length fs"
      "w \<in> set (fst (scanEntry ex th (randomUUID env (Suc i + k)) (Date_now env (Suc i + k)) (fs ! k)))"
      by blast
    then show ?thesis by (intro exI[of _ "Suc k"]) simp
  qed
qed

lemma scanLoop_mem_rev:
  "k < length fs \<Longrightarrow>
   w \<in> set (fst (scanEntry ex th (randomUUID env (i + k)) (Date_now env (i + k)) (fs ! k))) \<Longrightarrow>
   w \<in> set (fst (scanLoop ex th env i fs))"
proof (induction fs arbitrary: i k)
  case Nil
  then show ?case by simp
next
  case (Cons f fs)
  show ?case
  proof (cases k)
    case 0
    then show ?thesis using Cons.prems by simp
  next
    case (Suc j)
    then have "w \<in> set (fst (scanLoop ex th env (Suc i) fs))"
      using Cons.IH[of j "Suc i"] Cons.prems by simp
    then show ?thesis by simp
  qed
qed

lemma markNotFound_mem:
  "(w \<in> set (markNotFound found X)) =
   (\<exists>x\<in>set X. relativePath x \<notin> set found \<and> \<not> truthy (notFound x) \<and> w = x\<lparr>notFound := Some True\<rparr>)"
  by (auto simp: markNotFound_def)

lemma existingVideosMap_Some:
  "existingVideosMap X p = Some x \<Longrightarrow> x \<in> set X \<and> relativePath x = p"
  by (auto simp: existingVideosMap_def dest!: map_of_SomeD)

lemma existingVideosMap_None:
  "(existingVideosMap X p = None) = (p \<notin> relativePath ` set X)"
  by (simp add: existingVideosMap_def map_of_eq_None_iff image_image)

text \<open>Every record of the plan is a rewritten or new record of a file entry, or a record
  marked as not found.\<close>

lemma plan_mem:
  assumes "w \<in> set (videosToBatchUpdate env files d)"
  shows "(\<exists>k<length (fileEntries files).
            needsUpdate (existingVideosMap (getAllVideos d) (webkitRelativePath (fileEntries files ! k)))
              (MAIN_THUMBNAILS d) (fileEntries files ! k) \<and>
            w = newVideoData (existingVideosMap (getAllVideos d) (webkitRelativePath (fileEntries files ! k)))
                  (randomUUID env k) (Date_now env k) (fileEntries files ! k))
       \<or> (\<exists>x\<in>set (getAllVideos d). relativePath x \<notin> set (foundFilePaths files) \<and>
             \<not> truthy (notFound x) \<and> w = x\<lparr>notFound := Some True\<rparr>)"
proof (cases "w \<in> set (markNotFound (foundFilePaths files) (getAllVideos d))")
  case True
  then show ?thesis by (simp add: markNotFound_mem)
next
  case False
  then have "w \<in> set (fst (scanLoop (existingVideosMap (getAllVideos d)) (getAllMainThumbnails d) env 0 (fileEntries files)))"
    using assms by (simp add: videosToBatchUpdate_def)
  from scanLoop_mem[OF this] show ?thesis
    by (auto simp: scanEntry_fst getAllMainThumbnails_def split: if_splits)
qed

lemma loaded_fields:
  "id' (applyVideoDefaults r) = id' r"
  "relativePath (applyVideoDefaults r) = relativePath r"
  "rating (applyVideoDefaults r) = rating r"
  "seen (applyVideoDefaults r) = seen r"
  "tags (applyVideoDefaults r) = tags r"
  "title (applyVideoDefaults r) = title r"
  "currentTime (applyVideoDefaults r) = currentTime r"
  "deleted (applyVideoDefaults r) = deleted r"
  "lastModified (applyVideoDefaults r) = lastModified r"
  "hearted (applyVideoDefaults r) = or_false (hearted r)"
  "hidden (applyVideoDefaults r) = or_false (hidden r)"
  "notFound (applyVideoDefaults r) = or_false (notFound r)"
  "timesOpened (applyVideoDefaults r) = or_num (timesOpened r) 0"
  "dateAdded (applyVideoDefaults r) = or_num (or_num (dateAdded r) (lastModified r)) 0"
  by (simp_all add: applyVideoDefaults_def)

lemma metadata_fields:
  "id' (videoMetadata r) = id' r"
  "relativePath (videoMetadata r) = relativePath r"
  "rating (videoMetadata r) = rating r"
  "seen (videoMetadata r) = seen r"
  "tags (videoMetadata r) = tags r"
  "title (videoMetadata r) = title r"
  "currentTime (videoMetadata r) = currentTime r"
  "deleted (videoMetadata r) = deleted r"
  "lastModified (videoMetadata r) = lastModified r"
  "hearted (videoMetadata r) = hearted r"
  "hidden (videoMetadata r) = hidden r"
  "notFound (videoMetadata r) = notFound r"
  "timesOpened (videoMetadata r) = timesOpened r"
  "dateAdded (videoMetadata r) = dateAdded r"
  by (simp_all add: videoMetadata_def)

lemma or_false_simps:
  "or_false (or_false b) = or_false b" "truthy (or_false b) = truthy b"
  "or_false (Some c) = Some c" "truthy (Some c) = c"
  by (auto simp: or_false_def truthy_def)

lemma or_num_zero: "or_num x 0 = x"
  by (simp add: or_num_def)

lemma db_after_scan_mem:
  assumes "r' \<in> set (VIDEOS (db_after_scan env cancelled files d))"
  shows "r' \<in> set (VIDEOS d) \<or> r' \<in> videoMetadata ` set (videosToBatchUpdate env files d)"
proof (cases "scanFiles env cancelled files d")
  case (Inl e)
  then show ?thesis using assms by (simp add: db_after_scan_def)
next
  case (Inr res)
  show ?thesis
  proof (cases "cancelled \<or> videosToBatchUpdate env files d = []")
    case True
    then have "fst res = d" using Inr
      by (auto simp: scanFiles_def batchUpdateVideos_def split: if_splits)
    then show ?thesis using assms Inr by (simp add: db_after_scan_def)
  next
    case False
    then have "put_all (map videoMetadata (videosToBatchUpdate env files d)) (VIDEOS d) = Some (VIDEOS (fst res))"
      using Inr by (auto simp: scanFiles_def batchUpdateVideos_def split: if_splits option.splits)
    from put_all_mem[OF this, of r'] assms Inr show ?thesis
      by (auto simp: db_after_scan_def)
  qed
qed

text \<open>
  Claim C2, amended. Let the stored identifiers be distinct and the identifiers the pass
  draws be new. Whatever the observed files and whether the pass is cancelled, rejected
  by the database or committed, a record after the pass has the relative path, rating,
  tags, title, saved playback position and hearted flag it had before the pass, and its
  deleted flag has the same truth value (an absent flag is written back as false). Its
  hidden flag is unchanged too, unless the pass rewrote the record for an observed file
  whose name ends in \<open>.jpg\<close>, in which case the record is hidden.
\<close>

theorem scan_keeps_user_metadata:
  assumes di: "distinct (map id' (VIDEOS d))"
      and fr: "\<forall>i. randomUUID env i \<notin> id' ` set (VIDEOS d)"
      and e: "e \<in> set (getAllVideos d)"
      and e': "e' \<in> set (getAllVideos (db_after_scan env cancelled files d))"
      and ii: "id' e' = id' e"
  shows "relativePath e' = relativePath e \<and> rating e' = rating e \<and> tags e' = tags e \<and>
         title e' = title e \<and> currentTime e' = currentTime e \<and> hearted e' = hearted e \<and>
         truthy (deleted e') = truthy (deleted e) \<and>
         (hidden e' = hidden e \<or>
          (hidden e' = Some True \<and>
           (\<exists>f\<in>set (fileEntries files). webkitRelativePath f = relativePath e \<and> isJpgName (file_name f))))"
proof -
  from e obtain r where r: "r \<in> set (VIDEOS d)" "e = applyVideoDefaults r"
    by (auto simp: getAllVideos_def)
  from e' obtain r' where r': "r' \<in> set (VIDEOS (db_after_scan env cancelled files d))"
    "e' = applyVideoDefaults r'"
    by (auto simp: getAllVideos_def)
  have ir: "id' r' = id' r" using ii r r' by (simp add: loaded_fields)
  have same: "x = e" if "x \<in> set (getAllVideos d)" "id' x = id' r" for x
  proof -
    from that obtain rx where "rx \<in> set (VIDEOS d)" "x = applyVideoDefaults rx"
      by (auto simp: getAllVideos_def)
    then show ?thesis using id_eq_in_distinct[OF di, of rx r] r that by (simp add: loaded_fields)
  qed
  have nfresh: "id' r \<noteq> randomUUID env k" for k
  proof
    assume "id' r = randomUUID env k"
    then have "randomUUID env k \<in> id' ` set (VIDEOS d)" using r(1) by (metis image_eqI)
    then show False using fr by blast
  qed
  from db_after_scan_mem[OF r'(1)]
  show ?thesis
  proof
    assume "r' \<in> set (VIDEOS d)"
    then have "r' = r" using id_eq_in_distinct[OF di _ r(1) ir] by simp
    then show ?thesis using r r' by simp
  next
    assume "r' \<in> videoMetadata ` set (videosToBatchUpdate env files d)"
    then obtain w where w: "w \<in> set (videosToBatchUpdate env files d)" "r' = videoMetadata w"
      by auto
    have iw: "id' w = id' r" using ir w by (simp add: metadata_fields)
    from plan_mem[OF w(1)] show ?thesis
    proof (elim disjE exE conjE bexE)
      fix k
      let ?f = "fileEntries files ! k"
      let ?ex = "existingVideosMap (getAllVideos d) (webkitRelativePath ?f)"
      assume k: "k < length (fileEntries files)"
        and wn: "w = newVideoData ?ex (randomUUID env k) (Date_now env k) ?f"
      have fm: "?f \<in> set (fileEntries files)" using k by simp
      show ?thesis
      proof (cases ?ex)
        case None
        then have "id' w = randomUUID env k" using wn by (simp add: newVideoData_def)
        then have False using nfresh[of k] iw by simp
        then show ?thesis ..
      next
        case (Some x)
        from existingVideosMap_Some[OF Some] have x: "x \<in> set (getAllVideos d)"
          "relativePath x = webkitRelativePath ?f" by auto
        have "id' x \<noteq> []"
        proof
          assume "id' x = []"
          then have "id' w = randomUUID env k" using wn Some by (simp add: newVideoData_def or_string_def)
          then show False using nfresh[of k] iw by simp
        qed
        then have "id' x = id' r" using wn Some iw by (simp add: newVideoData_def or_string_def)
        then have xe: "x = e" using same x by simp
        have he: "hearted e = or_false (hearted r)" "hidden e = or_false (hidden r)"
          using r by (simp_all add: loaded_fields)
        have "e' = applyVideoDefaults (videoMetadata (newVideoData (Some e) (randomUUID env k) (Date_now env k) ?f))"
          using r' w wn Some xe by simp
        then have fields: "relativePath e' = webkitRelativePath ?f" "rating e' = rating e"
          "tags e' = tags e" "title e' = title e" "currentTime e' = currentTime e"
          "hearted e' = hearted e" "truthy (deleted e') = truthy (deleted e)"
          "hidden e' = Some (truthy (hidden e) \<or> isJpgName (file_name ?f))"
          by (simp_all add: loaded_fields metadata_fields newVideoData_def or_num_zero he or_false_simps)
        have "hidden e = Some (truthy (hidden e))"
          by (simp add: he or_false_def truthy_def)
        then have "hidden e' = hidden e \<or> (hidden e' = Some True \<and> isJpgName (file_name ?f))"
          using fields(8) by (cases "isJpgName (file_name ?f)") auto
        then show ?thesis using fields x xe fm by auto
      qed
    next
      fix x
      assume x: "x \<in> set (getAllVideos d)" and wx: "w = x\<lparr>notFound := Some True\<rparr>"
      have "id' x = id' r" using wx iw by simp
      then have xe: "x = e" using same x by simp
      have he: "hearted e = or_false (hearted r)" "hidden e = or_false (hidden r)"
        using r by (simp_all add: loaded_fields)
      have "e' = applyVideoDefaults (videoMetadata (e\<lparr>notFound := Some True\<rparr>))"
        using r' w wx xe by simp
      then show ?thesis
        by (simp add: loaded_fields metadata_fields he or_false_simps)
    qed
  qed
qed

lemma sample_uuid_fresh: "randomUUID sample_env i \<notin> id' ` set (VIDEOS jpg_db)"
  by (simp add: sample_env_def jpg_db_def jpg_video_def)

lemma jpg_after: "getAllVideos (db_after_scan sample_env False [jpg_file] jpg_db)
     = [jpg_video\<lparr>lastModified := 6, hidden := Some True, deleted := Some False\<rparr>]"
  by (simp add: db_after_scan_def jpg_scan)
     (simp add: getAllVideos_def applyVideoDefaults_def jpg_video_def sample_video_def
        or_num_def or_false_def truthy_def or_null_string_def)

text \<open>
  The pass over the library of one unhidden \<open>.jpg\<close> record: rating, tags and title
  stay, and the record after the pass is the hidden one.
\<close>

theorem scan_keeps_user_metadata_witness:
  "rating (jpg_video\<lparr>lastModified := 6, hidden := Some True, deleted := Some False\<rparr>) = rating jpg_video \<and>
   tags (jpg_video\<lparr>lastModified := 6, hidden := Some True, deleted := Some False\<rparr>) = tags jpg_video \<and>
   title (jpg_video\<lparr>lastModified := 6, hidden := Some True, deleted := Some False\<rparr>) = title jpg_video \<and>
   getAllVideos (db_after_scan sample_env False [jpg_file] jpg_db)
     = [jpg_video\<lparr>lastModified := 6, hidden := Some True, deleted := Some False\<rparr>] \<and>
   getAllVideos jpg_db = [jpg_video]"
proof -
  let ?e' = "jpg_video\<lparr>lastModified := 6, hidden := Some True, deleted := Some False\<rparr>"
  have di: "distinct (map id' (VIDEOS jpg_db))" by (simp add: jpg_db_def)
  have fr: "\<forall>i. randomUUID sample_env i \<notin> id' ` set (VIDEOS jpg_db)"
    using sample_uuid_fresh by blast
  have e: "jpg_video \<in> set (getAllVideos jpg_db)" by (simp add: jpg_loaded)
  have e': "?e' \<in> set (getAllVideos (db_after_scan sample_env False [jpg_file] jpg_db))"
    by (simp add: jpg_after)
  have ii: "id' ?e' = id' jpg_video" by simp
  from scan_keeps_user_metadata[OF di fr e e' ii] jpg_after jpg_loaded
  show ?thesis by simp
qed

lemma store_put_ids:
  "store_put v s = Some s' \<Longrightarrow> map id' s' = (if id' v \<in> id' ` set s then map id' s else map id' s @ [id' v])"
  by (auto simp: store_put_def split: if_splits)

lemma store_put_distinct:
  "store_put v s = Some s' \<Longrightarrow> distinct (map id' s) \<Longrightarrow> distinct (map id' s')"
  by (auto simp: store_put_ids split: if_splits)

lemma put_all_distinct:
  "put_all ws s = Some s' \<Longrightarrow> distinct (map id' s) \<Longrightarrow> distinct (map id' s')"
proof (induction ws arbitrary: s)
  case Nil
  then show ?case by simp
next
  case (Cons w ws)
  then obtain s1 where s1: "store_put w s = Some s1" and rest: "put_all ws s1 = Some s'"
    by (auto split: option.splits)
  from Cons.IH[OF rest store_put_distinct[OF s1 Cons.prems(2)]] show ?case .
qed

lemma put_all_keep:
  "put_all ws s = Some s' \<Longrightarrow> r \<in> set s \<Longrightarrow> \<forall>w\<in>set ws. id' w \<noteq> id' r \<Longrightarrow> r \<in> set s'"
proof (induction ws arbitrary: s)
  case Nil
  then show ?case by simp
next
  case (Cons w ws)
  then obtain s1 where s1: "store_put w s = Some s1" and rest: "put_all ws s1 = Some s'"
    by (auto split: option.splits)
  have "r \<in> set s1" using store_put_keep[OF s1 Cons.prems(2)] Cons.prems(3) by auto
  from Cons.IH[OF rest this] Cons.prems(3) show ?case by simp
qed

lemma put_all_succeeds:
  assumes "\<forall>a\<in>set s \<union> set ws. \<forall>b\<in>set s \<union> set ws. relativePath a = relativePath b \<longrightarrow> id' a = id' b"
  shows "\<exists>s'. put_all ws s = Some s'"
  using assms
proof (induction ws arbitrary: s)
  case Nil
  then show ?case by simp
next
  case (Cons w ws)
  have "\<not> index_conflict s w"
    using Cons.prems by (auto simp: index_conflict_def)
  then have "\<exists>s1. store_put w s = Some s1"
    by (simp add: store_put_def)
  then obtain s1 where s1: "store_put w s = Some s1" by blast
  have sub: "set s1 \<subseteq> set s \<union> {w}" using store_put_mem[OF s1] by auto
  have "\<forall>a\<in>set s1 \<union> set ws. \<forall>b\<in>set s1 \<union> set ws. relativePath a = relativePath b \<longrightarrow> id' a = id' b"
  proof (intro ballI impI)
    fix a b assume "a \<in> set s1 \<union> set ws" "b \<in> set s1 \<union> set ws" "relativePath a = relativePath b"
    moreover have "a \<in> set s \<union> set (w # ws)" "b \<in> set s \<union> set (w # ws)"
      using calculation(1,2) sub by auto
    ultimately show "id' a = id' b" using Cons.prems by blast
  qed
  from Cons.IH[OF this] s1 show ?case by simp
qed

text \<open>Writing records that load to what the stored records of the same key load to
  changes nothing in what the store loads to.\<close>

lemma store_put_same_view:
  assumes "store_put w s = Some s'" "r \<in> set s" "id' r = id' w"
      and "applyVideoDefaults w = applyVideoDefaults r" "distinct (map id' s)"
  shows "map applyVideoDefaults s' = map applyVideoDefaults s"
proof -
  have "id' w \<in> id' ` set s" using assms(2,3) by (metis image_eqI)
  then have s': "s' = map (\<lambda>x. if id' x = id' w then w else x) s"
    using assms(1) by (auto simp: store_put_def split: if_splits)
  have "applyVideoDefaults (if id' x = id' w then w else x) = applyVideoDefaults x" if "x \<in> set s" for x
    using id_eq_in_distinct[OF assms(5) that assms(2)] assms(3,4) by auto
  then show ?thesis unfolding s' by (simp add: comp_def cong: map_cong)
qed

lemma put_all_same_view:
  assumes "put_all ws s = Some s'" "distinct (map id' s)"
      and "\<forall>w\<in>set ws. \<exists>r\<in>set s. id' r = id' w \<and> applyVideoDefaults w = applyVideoDefaults r"
  shows "map applyVideoDefaults s' = map applyVideoDefaults s"
  using assms
proof (induction ws arbitrary: s)
  case Nil
  then show ?case by simp
next
  case (Cons w ws)
  then obtain s1 where s1: "store_put w s = Some s1" and rest: "put_all ws s1 = Some s'"
    by (auto split: option.splits)
  from Cons.prems(3) obtain r where r: "r \<in> set s" "id' r = id' w"
    "applyVideoDefaults w = applyVideoDefaults r" by auto
  have v1: "map applyVideoDefaults s1 = map applyVideoDefaults s"
    by (rule store_put_same_view[OF s1 r Cons.prems(2)])
  have d1: "distinct (map id' s1)" by (rule store_put_distinct[OF s1 Cons.prems(2)])
  have "\<forall>y\<in>set ws. \<exists>r\<in>set s1. id' r = id' y \<and> applyVideoDefaults y = applyVideoDefaults r"
  proof
    fix y assume "y \<in> set ws"
    then obtain q where q: "q \<in> set s" "id' q = id' y" "applyVideoDefaults y = applyVideoDefaults q"
      using Cons.prems(3) by auto
    have "applyVideoDefaults q \<in> set (map applyVideoDefaults s1)" using q(1) v1 by simp
    then obtain q1 where "q1 \<in> set s1" "applyVideoDefaults q1 = applyVideoDefaults q" by auto
    moreover have "id' q1 = id' q"
      using calculation(2) loaded_fields(1)[of q1] loaded_fields(1)[of q] by simp
    ultimately show "\<exists>r\<in>set s1. id' r = id' y \<and> applyVideoDefaults y = applyVideoDefaults r"
      using q by auto
  qed
  from Cons.IH[OF rest d1 this] v1 show ?case by simp
qed

lemma path_eq_in_distinct:
  "distinct (map relativePath vs) \<Longrightarrow> x \<in> set vs \<Longrightarrow> y \<in> set vs \<Longrightarrow>
   relativePath x = relativePath y \<Longrightarrow> x = y"
  by (auto simp: distinct_map dest: inj_onD)

lemma loaded_ids: "map id' (getAllVideos d) = map id' (VIDEOS d)"
  by (simp add: getAllVideos_def loaded_fields comp_def)

lemma loaded_paths: "map relativePath (getAllVideos d) = map relativePath (VIDEOS d)"
  by (simp add: getAllVideos_def loaded_fields comp_def)

lemma existing_lookup:
  assumes "distinct (map relativePath X)" "x \<in> set X"
  shows "existingVideosMap X (relativePath x) = Some x"
proof (cases "existingVideosMap X (relativePath x)")
  case None
  then show ?thesis using assms(2) by (simp add: existingVideosMap_None)
next
  case (Some y)
  from existingVideosMap_Some[OF Some] path_eq_in_distinct[OF assms(1) _ assms(2)]
  show ?thesis using Some by auto
qed

lemma plan_cases:
  assumes "w \<in> set (videosToBatchUpdate env files d)"
  shows "(\<exists>k. is_new env files d w k) \<or> (\<exists>k x. is_upd env files d w k x) \<or> (\<exists>x. is_nf files d w x)"
  using plan_mem[OF assms]
proof (elim disjE exE conjE bexE)
  fix k
  assume k: "k < length (fileEntries files)"
    and n: "needsUpdate (existingVideosMap (getAllVideos d) (webkitRelativePath (fileEntries files ! k)))
              (MAIN_THUMBNAILS d) (fileEntries files ! k)"
    and w: "w = newVideoData (existingVideosMap (getAllVideos d) (webkitRelativePath (fileEntries files ! k)))
                  (randomUUID env k) (Date_now env k) (fileEntries files ! k)"
  show ?thesis
  proof (cases "existingVideosMap (getAllVideos d) (webkitRelativePath (fileEntries files ! k))")
    case None
    then have "is_new env files d w k" using k w by (simp add: is_new_def)
    then show ?thesis by blast
  next
    case (Some x)
    then have "is_upd env files d w k x" using k n w by (simp add: is_upd_def)
    then show ?thesis by blast
  qed
next
  fix x
  assume "x \<in> set (getAllVideos d)" "relativePath x \<notin> set (foundFilePaths files)"
    "\<not> truthy (notFound x)" "w = x\<lparr>notFound := Some True\<rparr>"
  then have "is_nf files d w x" by (simp add: is_nf_def)
  then show ?thesis by blast
qed

lemma plan_has_new_upd:
  assumes "k < length (fileEntries files)"
      and "needsUpdate (existingVideosMap (getAllVideos d) (webkitRelativePath (fileEntries files ! k)))
              (MAIN_THUMBNAILS d) (fileEntries files ! k)"
  shows "newVideoData (existingVideosMap (getAllVideos d) (webkitRelativePath (fileEntries files ! k)))
                  (randomUUID env k) (Date_now env k) (fileEntries files ! k)
           \<in> set (videosToBatchUpdate env files d)"
proof -
  have "newVideoData (existingVideosMap (getAllVideos d) (webkitRelativePath (fileEntries files ! k)))
                  (randomUUID env k) (Date_now env k) (fileEntries files ! k)
      \<in> set (fst (scanLoop (existingVideosMap (getAllVideos d)) (getAllMainThumbnails d) env 0 (fileEntries files)))"
    by (rule scanLoop_mem_rev[OF assms(1)]) (use assms(2) in \<open>simp add: scanEntry_fst getAllMainThumbnails_def\<close>)
  then show ?thesis by (simp add: videosToBatchUpdate_def)
qed

lemma plan_has_nf:
  assumes "x \<in> set (getAllVideos d)" "relativePath x \<notin> set (foundFilePaths files)" "\<not> truthy (notFound x)"
  shows "x\<lparr>notFound := Some True\<rparr> \<in> set (videosToBatchUpdate env files d)"
  using assms by (auto simp: videosToBatchUpdate_def markNotFound_mem)

lemma entry_path_found:
  "k < length (fileEntries files) \<Longrightarrow> webkitRelativePath (fileEntries files ! k) \<in> set (foundFilePaths files)"
  by (simp add: foundFilePaths_def)

lemma entry_path_inj:
  assumes "distinct (foundFilePaths files)" "k < length (fileEntries files)" "j < length (fileEntries files)"
      and "webkitRelativePath (fileEntries files ! k) = webkitRelativePath (fileEntries files ! j)"
  shows "k = j"
proof -
  have l: "k < length (foundFilePaths files)" "j < length (foundFilePaths files)"
    using assms(2,3) by (simp_all add: foundFilePaths_def)
  have "foundFilePaths files ! k = foundFilePaths files ! j"
    using assms(2,3,4) by (simp add: foundFilePaths_def)
  then show ?thesis using nth_eq_iff_index_eq[OF assms(1) l] by simp
qed

lemma new_facts:
  assumes "is_new env files d w k"
  shows "id' w = randomUUID env k" "relativePath w = webkitRelativePath (fileEntries files ! k)"
    "relativePath w \<notin> relativePath ` set (getAllVideos d)" "relativePath w \<in> set (foundFilePaths files)"
  using assms
  by (simp_all add: is_new_def newVideoData_def existingVideosMap_None entry_path_found)

lemma upd_facts:
  assumes "is_upd env files d w k x" "wf_store (VIDEOS d)"
  shows "x \<in> set (getAllVideos d)" "id' w = id' x" "relativePath w = relativePath x"
    "relativePath x = webkitRelativePath (fileEntries files ! k)" "relativePath w \<in> set (foundFilePaths files)"
proof -
  have ex: "existingVideosMap (getAllVideos d) (webkitRelativePath (fileEntries files ! k)) = Some x"
    and k: "k < length (fileEntries files)"
    and w: "w = newVideoData (Some x) (randomUUID env k) (Date_now env k) (fileEntries files ! k)"
    using assms(1) by (simp_all add: is_upd_def)
  from existingVideosMap_Some[OF ex] show x: "x \<in> set (getAllVideos d)"
    and p: "relativePath x = webkitRelativePath (fileEntries files ! k)" by auto
  have "id' x \<in> set (map id' (VIDEOS d))" using x loaded_ids[of d] by (metis image_eqI set_map)
  then have "id' x \<noteq> []" using assms(2) by (auto simp: wf_store_def)
  then show "id' w = id' x" using w by (simp add: newVideoData_def or_string_def)
  show "relativePath w = relativePath x" using w p by (simp add: newVideoData_def)
  then show "relativePath w \<in> set (foundFilePaths files)" using p k by (simp add: entry_path_found)
qed

lemma nf_facts:
  assumes "is_nf files d w x"
  shows "x \<in> set (getAllVideos d)" "id' w = id' x" "relativePath w = relativePath x"
    "relativePath w \<notin> set (foundFilePaths files)" "notFound w = Some True"
  using assms by (simp_all add: is_nf_def)

lemma pre_loaded:
  assumes "scan_pre env files d"
  shows "distinct (map id' (getAllVideos d))" "distinct (map relativePath (getAllVideos d))"
    "\<And>x k. x \<in> set (getAllVideos d) \<Longrightarrow> id' x \<noteq> randomUUID env k"
    "\<And>x. x \<in> set (getAllVideos d) \<Longrightarrow> id' x \<noteq> []"
proof -
  show "distinct (map id' (getAllVideos d))" "distinct (map relativePath (getAllVideos d))"
    using assms by (simp_all add: scan_pre_def wf_store_def loaded_ids loaded_paths)
  have ids: "id' x \<in> id' ` set (VIDEOS d)" if "x \<in> set (getAllVideos d)" for x
    using that loaded_ids[of d] by (metis image_eqI set_map)
  show "id' x \<noteq> randomUUID env k" if "x \<in> set (getAllVideos d)" for x k
  proof -
    have "randomUUID env k \<notin> id' ` set (VIDEOS d)"
      using assms by (simp add: scan_pre_def fresh_env_def)
    then show ?thesis using ids[OF that] by metis
  qed
  show "id' x \<noteq> []" if "x \<in> set (getAllVideos d)" for x
    using ids[OF that] assms by (auto simp: scan_pre_def wf_store_def)
qed

text \<open>Two records of the plan with the same identifier are the same record.\<close>

lemma plan_unique:
  assumes pre: "scan_pre env files d"
      and w: "w \<in> set (videosToBatchUpdate env files d)"
      and v: "v \<in> set (videosToBatchUpdate env files d)"
      and i: "id' w = id' v"
  shows "w = v"
proof -
  have wf: "wf_store (VIDEOS d)" and dp: "distinct (foundFilePaths files)"
    and inj: "inj (randomUUID env)"
    using pre by (simp_all add: scan_pre_def fresh_env_def)
  note L = pre_loaded[OF pre]
  have old_old: "w = v"
    if a: "is_upd env files d w k x \<or> is_nf files d w x"
    and b: "is_upd env files d v j y \<or> is_nf files d v y" for k x j y
  proof -
    have "x \<in> set (getAllVideos d) \<and> id' w = id' x \<and> relativePath w = relativePath x"
      using a upd_facts(1,2,3)[OF _ wf, of env files w k x] nf_facts(1,2,3)[of files d w x] by blast
    then have x: "x \<in> set (getAllVideos d)" "id' w = id' x" "relativePath w = relativePath x"
      by simp_all
    have "y \<in> set (getAllVideos d) \<and> id' v = id' y \<and> relativePath v = relativePath y"
      using b upd_facts(1,2,3)[OF _ wf, of env files v j y] nf_facts(1,2,3)[of files d v y] by blast
    then have y: "y \<in> set (getAllVideos d)" "id' v = id' y" "relativePath v = relativePath y"
      by simp_all
    have xy: "x = y" using id_eq_in_distinct[OF L(1) x(1) y(1)] i x(2) y(2) by simp
    show ?thesis
    proof (cases "relativePath x \<in> set (foundFilePaths files)")
      case True
      then have uw: "is_upd env files d w k x" and uv: "is_upd env files d v j y"
        using a b xy nf_facts(3,4) x(3) y(3) by (metis)+
      have "webkitRelativePath (fileEntries files ! k) = webkitRelativePath (fileEntries files ! j)"
        using upd_facts(4)[OF uw wf] upd_facts(4)[OF uv wf] xy by simp
      then have "k = j" using entry_path_inj[OF dp] uw uv by (simp add: is_upd_def)
      then show ?thesis using uw uv xy by (simp add: is_upd_def)
    next
      case False
      then have "is_nf files d w x" "is_nf files d v y"
        using a b xy upd_facts(3,5)[OF _ wf] x(3) y(3) by (metis)+
      then show ?thesis using xy by (simp add: is_nf_def)
    qed
  qed
  have new_old: False
    if a: "is_new env files d w' k" and b: "is_upd env files d v' j y \<or> is_nf files d v' y"
    and ii: "id' w' = id' v'" for w' v' k j y
  proof -
    have "y \<in> set (getAllVideos d) \<and> id' v' = id' y"
      using b upd_facts(1,2)[OF _ wf, of env files v' j y] nf_facts(1,2)[of files d v' y] by blast
    then have y: "y \<in> set (getAllVideos d)" "id' v' = id' y" by simp_all
    then show False using new_facts(1)[OF a] L(3)[OF y(1), of k] ii by simp
  qed
  have new_new: "w = v" if a: "is_new env files d w k" and b: "is_new env files d v j" for k j
  proof -
    have "randomUUID env k = randomUUID env j" using new_facts(1)[OF a] new_facts(1)[OF b] i by simp
    then have "k = j" using inj by (auto dest: injD)
    then show ?thesis using a b by (simp add: is_new_def)
  qed
  from plan_cases[OF w] plan_cases[OF v] show ?thesis
    using old_old new_old[of w _ v] new_old[of v _ w] new_new i by metis
qed

text \<open>Among the stored records and the records of the plan, a path determines the identifier.\<close>

lemma plan_paths:
  assumes pre: "scan_pre env files d"
      and a: "a \<in> set (VIDEOS d) \<union> set (map videoMetadata (videosToBatchUpdate env files d))"
      and b: "b \<in> set (VIDEOS d) \<union> set (map videoMetadata (videosToBatchUpdate env files d))"
      and p: "relativePath a = relativePath b"
  shows "id' a = id' b"
proof -
  have wf: "wf_store (VIDEOS d)" and dp: "distinct (foundFilePaths files)"
    using pre by (simp_all add: scan_pre_def)
  note L = pre_loaded[OF pre]
  define anchored :: "VideoData \<Rightarrow> bool" where "anchored = (\<lambda>y. \<exists>x\<in>set (getAllVideos d). id' y = id' x \<and> relativePath y = relativePath x)"
  define fresh :: "VideoData \<Rightarrow> bool" where "fresh = (\<lambda>y. \<exists>w k. is_new env files d w k \<and> y = videoMetadata w)"
  have kinds: "anchored y \<or> fresh y"
    if yy: "y \<in> set (VIDEOS d) \<union> set (map videoMetadata (videosToBatchUpdate env files d))" for y
  proof (cases "y \<in> set (VIDEOS d)")
    case True
    then have "applyVideoDefaults y \<in> set (getAllVideos d)" by (simp add: getAllVideos_def)
    then show ?thesis unfolding anchored_def by (auto simp: loaded_fields intro!: bexI[of _ "applyVideoDefaults y"])
  next
    case False
    then obtain w where w: "w \<in> set (videosToBatchUpdate env files d)" "y = videoMetadata w"
      using yy by auto
    from plan_cases[OF w(1)] show ?thesis
    proof (elim disjE exE)
      fix k assume "is_new env files d w k"
      then show ?thesis using w(2) unfolding fresh_def by blast
    next
      fix k x assume u: "is_upd env files d w k x"
      show ?thesis unfolding anchored_def
        using upd_facts(1,2,3)[OF u wf] w(2) by (auto simp: metadata_fields)
    next
      fix x assume n: "is_nf files d w x"
      show ?thesis unfolding anchored_def
        using nf_facts(1,2,3)[OF n] w(2) by (auto simp: metadata_fields)
    qed
  qed
  have aa: "id' y = id' z" if "anchored y" "anchored z" "relativePath y = relativePath z" for y z
  proof -
    from that obtain x x' where x: "x \<in> set (getAllVideos d)" "id' y = id' x" "relativePath y = relativePath x"
      and x': "x' \<in> set (getAllVideos d)" "id' z = id' x'" "relativePath z = relativePath x'"
      unfolding anchored_def by blast
    have "x = x'" using path_eq_in_distinct[OF L(2) x(1) x'(1)] that(3) x(3) x'(3) by simp
    then show ?thesis using x x' by simp
  qed
  have af: False if "anchored y" "fresh z" "relativePath y = relativePath z" for y z
  proof -
    from that(1) obtain x where x: "x \<in> set (getAllVideos d)" "relativePath y = relativePath x"
      unfolding anchored_def by blast
    from that(2) obtain w k where w: "is_new env files d w k" "z = videoMetadata w"
      unfolding fresh_def by blast
    have "relativePath z \<notin> relativePath ` set (getAllVideos d)"
      using new_facts(3)[OF w(1)] w(2) by (simp add: metadata_fields)
    then show False using x that(3) by (metis image_eqI)
  qed
  have ff: "id' y = id' z" if "fresh y" "fresh z" "relativePath y = relativePath z" for y z
  proof -
    from that(1) obtain w k where w: "is_new env files d w k" "y = videoMetadata w"
      unfolding fresh_def by blast
    from that(2) obtain v j where v: "is_new env files d v j" "z = videoMetadata v"
      unfolding fresh_def by blast
    have "webkitRelativePath (fileEntries files ! k) = webkitRelativePath (fileEntries files ! j)"
      using new_facts(2)[OF w(1)] new_facts(2)[OF v(1)] that(3) w(2) v(2) by (simp add: metadata_fields)
    then have "k = j" using entry_path_inj[OF dp] w(1) v(1) by (simp add: is_new_def)
    then show ?thesis using w v by (simp add: is_new_def)
  qed
  from kinds[OF a] kinds[OF b] show ?thesis
    using aa af[of a b] af[of b a] ff p by metis
qed

text \<open>Under the precondition the database accepts the plan, and the store after the pass
  holds every record of the plan, every stored record the plan does not touch, and
  nothing else.\<close>

lemma scan_commits:
  assumes pre: "scan_pre env files d"
  shows "\<exists>S'. put_all (map videoMetadata (videosToBatchUpdate env files d)) (VIDEOS d) = Some S' \<and>
           scanFiles env False files d = Inr (d\<lparr>VIDEOS := S'\<rparr>, videosForThumbGen env files d) \<and>
           distinct (map id' S') \<and> distinct (map relativePath S') \<and>
           (\<forall>w\<in>set (videosToBatchUpdate env files d). videoMetadata w \<in> set S') \<and>
           (\<forall>r\<in>set (VIDEOS d). (\<forall>w\<in>set (videosToBatchUpdate env files d). id' w \<noteq> id' r) \<longrightarrow> r \<in> set S') \<and>
           (\<forall>r'\<in>set S'. r' \<in> set (VIDEOS d) \<or> r' \<in> videoMetadata ` set (videosToBatchUpdate env files d))"
proof -
  let ?P = "videosToBatchUpdate env files d"
  have pf: "\<forall>a\<in>set (VIDEOS d) \<union> set (map videoMetadata ?P).
            \<forall>b\<in>set (VIDEOS d) \<union> set (map videoMetadata ?P).
              relativePath a = relativePath b \<longrightarrow> id' a = id' b"
    using plan_paths[OF pre] by blast
  from put_all_succeeds[OF pf] obtain S' where put: "put_all (map videoMetadata ?P) (VIDEOS d) = Some S'"
    by blast
  have di: "distinct (map id' (VIDEOS d))" using pre by (simp add: scan_pre_def wf_store_def)
  have d1: "distinct (map id' S')" by (rule put_all_distinct[OF put di])
  have mem: "r' \<in> set (VIDEOS d) \<or> r' \<in> videoMetadata ` set ?P" if "r' \<in> set S'" for r'
    using put_all_mem[OF put that] by auto
  have d2: "distinct (map relativePath S')"
  proof -
    have "distinct S'" using d1 by (auto simp: distinct_map)
    moreover have "inj_on relativePath (set S')"
    proof (rule inj_onI)
      fix a b assume ab: "a \<in> set S'" "b \<in> set S'" "relativePath a = relativePath b"
      have "a \<in> set (VIDEOS d) \<union> set (map videoMetadata ?P)" "b \<in> set (VIDEOS d) \<union> set (map videoMetadata ?P)"
        using mem[OF ab(1)] mem[OF ab(2)] by auto
      then have "id' a = id' b" using pf ab(3) by blast
      then show "a = b" using id_eq_in_distinct[OF d1 ab(1,2)] by simp
    qed
    ultimately show ?thesis by (simp add: distinct_map)
  qed
  have all: "videoMetadata w \<in> set S'" if w: "w \<in> set ?P" for w
  proof (rule put_all_unique[OF put])
    show "videoMetadata w \<in> set (map videoMetadata ?P)" using w by simp
    show "\<forall>x\<in>set (map videoMetadata ?P). id' x = id' (videoMetadata w) \<longrightarrow> x = videoMetadata w"
    proof (intro ballI impI)
      fix x assume "x \<in> set (map videoMetadata ?P)" "id' x = id' (videoMetadata w)"
      then obtain v where v: "v \<in> set ?P" "x = videoMetadata v" "id' v = id' w"
        by (auto simp: metadata_fields)
      from plan_unique[OF pre v(1) w v(3)] v(2) show "x = videoMetadata w" by simp
    qed
  qed
  have keep: "r \<in> set S'" if "r \<in> set (VIDEOS d)" "\<forall>w\<in>set ?P. id' w \<noteq> id' r" for r
    by (rule put_all_keep[OF put that(1)]) (use that(2) in \<open>simp add: metadata_fields\<close>)
  have res: "scanFiles env False files d = Inr (d\<lparr>VIDEOS := S'\<rparr>, videosForThumbGen env files d)"
  proof (cases "?P = []")
    case True
    then have "S' = VIDEOS d" using put by simp
    then show ?thesis using True by (simp add: scanFiles_def batchUpdateVideos_def)
  next
    case False
    then show ?thesis using put by (simp add: scanFiles_def batchUpdateVideos_def)
  qed
  from put res d1 d2 all keep mem show ?thesis by blast
qed

lemma loaded_mark:
  "applyVideoDefaults (videoMetadata ((applyVideoDefaults r)\<lparr>notFound := Some b\<rparr>))
     = (applyVideoDefaults r)\<lparr>notFound := Some b\<rparr>"
  by (simp add: applyVideoDefaults_def videoMetadata_def or_false_simps)
     (auto simp: or_num_def or_null_string_def split: option.splits)

lemma findById_loaded:
  assumes "distinct (map id' s)" "r \<in> set s"
  shows "findById (map applyVideoDefaults s) (id' r) = Some (applyVideoDefaults r)"
  by (rule findById_map[OF assms(1) _ assms(2)]) (simp add: loaded_fields)

text \<open>
  Claim C4, as the code has it. The pass is not cancelled, the store is well formed, the
  observed paths are distinct and the environment draws fresh identifiers and a nonzero
  clock. Then the pass commits, and in the library read back from the database:
  every record whose path is absent from the observed files is the record it was with
  \<open>notFound\<close> true; every record marked as not found whose path is observed again has
  \<open>notFound\<close> false and keeps its identifier, path, rating, seen flag, tags, hearted
  flag, title, playback position and open count, the truth value of its deleted flag,
  and its \<open>dateAdded\<close> unless that was zero; its hidden flag is the old one or-ed with
  "the file is a \<open>.jpg\<close>".
\<close>

theorem scan_marks_missing_and_restores:
  assumes pre: "scan_pre env files d"
  shows "\<exists>d'. scanFiles env False files d = Inr (d', videosForThumbGen env files d) \<and>
     (\<forall>e\<in>set (getAllVideos d). relativePath e \<notin> set (foundFilePaths files) \<longrightarrow>
        findById (getAllVideos d') (id' e) = Some (e\<lparr>notFound := Some True\<rparr>)) \<and>
     (\<forall>e\<in>set (getAllVideos d). \<forall>f\<in>set (fileEntries files).
        webkitRelativePath f = relativePath e \<and> truthy (notFound e) \<longrightarrow>
        (\<exists>e'. findById (getAllVideos d') (id' e) = Some e' \<and> notFound e' = Some False \<and>
              id' e' = id' e \<and> relativePath e' = relativePath e \<and> rating e' = rating e \<and>
              seen e' = seen e \<and> tags e' = tags e \<and> hearted e' = hearted e \<and>
              truthy (deleted e') = truthy (deleted e) \<and> title e' = title e \<and>
              currentTime e' = currentTime e \<and> timesOpened e' = timesOpened e \<and>
              (dateAdded e \<noteq> 0 \<longrightarrow> dateAdded e' = dateAdded e) \<and>
              hidden e' = Some (truthy (hidden e) \<or> isJpgName (file_name f))))"
proof -
  let ?P = "videosToBatchUpdate env files d"
  from scan_commits[OF pre] obtain S' where
    res: "scanFiles env False files d = Inr (d\<lparr>VIDEOS := S'\<rparr>, videosForThumbGen env files d)"
    and d1: "distinct (map id' S')"
    and all: "\<forall>w\<in>set ?P. videoMetadata w \<in> set S'"
    and keep: "\<forall>r\<in>set (VIDEOS d). (\<forall>w\<in>set ?P. id' w \<noteq> id' r) \<longrightarrow> r \<in> set S'"
    by blast
  have wf: "wf_store (VIDEOS d)" using pre by (simp add: scan_pre_def)
  note L = pre_loaded[OF pre]
  have X': "getAllVideos (d\<lparr>VIDEOS := S'\<rparr>) = map applyVideoDefaults S'" by (simp add: getAllVideos_def)
  have a: "findById (getAllVideos (d\<lparr>VIDEOS := S'\<rparr>)) (id' e) = Some (e\<lparr>notFound := Some True\<rparr>)"
    if e: "e \<in> set (getAllVideos d)" and nf: "relativePath e \<notin> set (foundFilePaths files)" for e
  proof -
    from e obtain r where r: "r \<in> set (VIDEOS d)" "e = applyVideoDefaults r"
      by (auto simp: getAllVideos_def)
    show ?thesis
    proof (cases "truthy (notFound e)")
      case False
      have "videoMetadata (e\<lparr>notFound := Some True\<rparr>) \<in> set S'"
        using all plan_has_nf[OF e nf False] by blast
      from findById_loaded[OF d1 this] show ?thesis
        unfolding X' r(2) by (simp add: metadata_fields loaded_mark)
    next
      case True
      have "id' w \<noteq> id' r" if w: "w \<in> set ?P" for w
      proof
        assume i: "id' w = id' r"
        have ie: "id' r = id' e" using r(2) by (simp add: loaded_fields)
        from plan_cases[OF w] show False
        proof (elim disjE exE)
          fix k assume "is_new env files d w k"
          then show False using new_facts(1) L(3)[OF e, of k] i ie by simp
        next
          fix k x assume u: "is_upd env files d w k x"
          have "x = e" using id_eq_in_distinct[OF L(1) upd_facts(1)[OF u wf] e] upd_facts(2)[OF u wf] i ie by simp
          then show False using upd_facts(3,5)[OF u wf] nf by simp
        next
          fix x assume n: "is_nf files d w x"
          have "x = e" using id_eq_in_distinct[OF L(1) nf_facts(1)[OF n] e] nf_facts(2)[OF n] i ie by simp
          then show False using n True by (simp add: is_nf_def)
        qed
      qed
      then have "r \<in> set S'" using keep r(1) by blast
      from findById_loaded[OF d1 this] have "findById (getAllVideos (d\<lparr>VIDEOS := S'\<rparr>)) (id' e) = Some e"
        unfolding X' r(2) by (simp add: loaded_fields)
      moreover have "e\<lparr>notFound := Some True\<rparr> = e" using True by (simp add: truthy_def)
      ultimately show ?thesis by simp
    qed
  qed
  have b: "\<exists>e'. findById (getAllVideos (d\<lparr>VIDEOS := S'\<rparr>)) (id' e) = Some e' \<and> notFound e' = Some False \<and>
              id' e' = id' e \<and> relativePath e' = relativePath e \<and> rating e' = rating e \<and>
              seen e' = seen e \<and> tags e' = tags e \<and> hearted e' = hearted e \<and>
              truthy (deleted e') = truthy (deleted e) \<and> title e' = title e \<and>
              currentTime e' = currentTime e \<and> timesOpened e' = timesOpened e \<and>
              (dateAdded e \<noteq> 0 \<longrightarrow> dateAdded e' = dateAdded e) \<and>
              hidden e' = Some (truthy (hidden e) \<or> isJpgName (file_name f))"
    if e: "e \<in> set (getAllVideos d)" and f: "f \<in> set (fileEntries files)"
      and pf: "webkitRelativePath f = relativePath e" and nf: "truthy (notFound e)" for e f
  proof -
    from e obtain r where r: "r \<in> set (VIDEOS d)" "e = applyVideoDefaults r"
      by (auto simp: getAllVideos_def)
    from f obtain k where k: "k < length (fileEntries files)" "fileEntries files ! k = f"
      by (auto simp: in_set_conv_nth)
    have ex: "existingVideosMap (getAllVideos d) (webkitRelativePath (fileEntries files ! k)) = Some e"
      using existing_lookup[OF L(2) e] k pf by simp
    have nu: "needsUpdate (existingVideosMap (getAllVideos d) (webkitRelativePath (fileEntries files ! k)))
                (MAIN_THUMBNAILS d) (fileEntries files ! k)"
      unfolding ex using nf by (simp add: needsUpdate_def)
    let ?w = "newVideoData (Some e) (randomUUID env k) (Date_now env k) f"
    have "?w \<in> set ?P" using plan_has_new_upd[OF k(1) nu, of env] ex k(2) by simp
    then have m: "videoMetadata ?w \<in> set S'" using all by blast
    have ine: "id' e \<noteq> []" by (rule L(4)[OF e])
    then have iw: "id' (videoMetadata ?w) = id' e"
      by (simp add: metadata_fields newVideoData_def or_string_def)
    have he: "hearted e = or_false (hearted r)" "hidden e = or_false (hidden r)"
      "timesOpened e = or_num (timesOpened r) 0"
      using r(2) by (simp_all add: loaded_fields)
    let ?e' = "applyVideoDefaults (videoMetadata ?w)"
    have "findById (getAllVideos (d\<lparr>VIDEOS := S'\<rparr>)) (id' e) = Some ?e'"
      using findById_loaded[OF d1 m] unfolding X' iw .
    moreover have "notFound ?e' = Some False" "id' ?e' = id' e" "relativePath ?e' = relativePath e"
      "rating ?e' = rating e" "seen ?e' = seen e" "tags ?e' = tags e" "hearted ?e' = hearted e"
      "truthy (deleted ?e') = truthy (deleted e)" "title ?e' = title e"
      "currentTime ?e' = currentTime e" "timesOpened ?e' = timesOpened e"
      "hidden ?e' = Some (truthy (hidden e) \<or> isJpgName (file_name f))"
      using ine pf
      by (simp_all add: loaded_fields metadata_fields newVideoData_def or_string_def or_num_zero he
          or_false_simps)
    moreover have "dateAdded e \<noteq> 0 \<longrightarrow> dateAdded ?e' = dateAdded e"
      by (simp add: loaded_fields metadata_fields newVideoData_def or_num_def)
    ultimately show ?thesis by blast
  qed
  from res a b show ?thesis by blast
qed

lemma lost_loaded: "getAllVideos lost_db = [sample_video, lost_video]"
  by (simp add: getAllVideos_def lost_db_def lost_video_def jpg_video_def sample_video_def
      applyVideoDefaults_def or_num_def or_false_def truthy_def or_null_string_def)

lemma lost_entries: "fileEntries [lost_file] = [lost_file]" "foundFilePaths [lost_file] = [''lib/pic.jpg'']"
  by (simp_all add: fileEntries_def foundFilePaths_def lost_file_def jpg_file_def)

lemma lost_plan:
  "videosToBatchUpdate sample_env [lost_file] lost_db
     = [jpg_video\<lparr>hidden := Some True, deleted := Some False\<rparr>, sample_video\<lparr>notFound := Some True\<rparr>]"
  by (simp add: videosToBatchUpdate_def lost_loaded lost_entries)
     (simp add: lost_file_def jpg_file_def lost_video_def
      existingVideosMap_def scanEntry_def newVideoData_def markNotFound_def jpg_name
      jpg_video_def sample_video_def or_num_def or_false_def truthy_def or_null_def or_string_def
      getAllMainThumbnails_def Let_def)

lemma lost_put:
  "put_all [videoMetadata (jpg_video\<lparr>hidden := Some True, deleted := Some False\<rparr>),
            videoMetadata (sample_video\<lparr>notFound := Some True\<rparr>)]
     (VIDEOS lost_db)
   = Some [sample_video\<lparr>notFound := Some True\<rparr>, jpg_video\<lparr>hidden := Some True, deleted := Some False\<rparr>]"
  by (simp add: videoMetadata_def store_put_def index_conflict_def lost_db_def lost_video_def jpg_video_def
      sample_video_def)

lemma lost_after:
  "getAllVideos (db_after_scan sample_env False [lost_file] lost_db)
     = [sample_video\<lparr>notFound := Some True\<rparr>, jpg_video\<lparr>hidden := Some True, deleted := Some False\<rparr>]"
  by (simp add: db_after_scan_def scanFiles_def lost_plan batchUpdateVideos_def lost_put del: put_all.simps)
     (simp add: getAllVideos_def applyVideoDefaults_def jpg_video_def sample_video_def
        or_num_def or_false_def truthy_def or_null_string_def)

text \<open>
  Claim C4 says that a record marked as not found whose path reappears keeps its hidden
  flag. The library holds \<open>lib/pic.jpg\<close>, marked as not found, that the user had
  unhidden; the picture is observed again with the modification time the record has.
  The pass clears \<open>notFound\<close> by rewriting the record with
  \<^verbatim>\<open>hidden: existingVideo?.hidden || isJpg\<close>, and the record is hidden again.
\<close>

theorem scan_restore_rehides_jpg_counterexample:
  "map relativePath (getAllVideos lost_db) = [''lib/a.mp4'', ''lib/pic.jpg''] \<and>
   map notFound (getAllVideos lost_db) = [Some False, Some True] \<and>
   map hidden (getAllVideos lost_db) = [Some False, Some False] \<and>
   foundFilePaths [lost_file] = [''lib/pic.jpg''] \<and>
   map relativePath (getAllVideos (db_after_scan sample_env False [lost_file] lost_db))
     = [''lib/a.mp4'', ''lib/pic.jpg''] \<and>
   map notFound (getAllVideos (db_after_scan sample_env False [lost_file] lost_db)) = [Some True, Some False] \<and>
   map hidden (getAllVideos (db_after_scan sample_env False [lost_file] lost_db)) = [Some False, Some True]"
  by (simp add: lost_after lost_loaded lost_entries)
     (simp add: lost_video_def jpg_video_def sample_video_def)

lemma sample_env_fresh:
  "inj (randomUUID sample_env)" "randomUUID sample_env i \<noteq> []" "Date_now sample_env i \<noteq> 0"
  by (simp_all add: sample_env_def inj_on_def)

lemma lost_pre: "scan_pre sample_env [lost_file] lost_db"
  unfolding scan_pre_def fresh_env_def wf_store_def
  by (simp add: sample_env_fresh lost_entries)
     (auto simp: lost_db_def lost_video_def jpg_video_def sample_video_def sample_env_def)

text \<open>
  The pass over the library of two records: \<open>lib/a.mp4\<close> is absent and is marked,
  the picture is observed again and is restored, hidden.
\<close>

theorem scan_marks_missing_and_restores_witness:
  "scan_pre sample_env [lost_file] lost_db \<and>
   findById (getAllVideos (db_after_scan sample_env False [lost_file] lost_db)) ''v1''
     = Some (sample_video\<lparr>notFound := Some True\<rparr>) \<and>
   (\<exists>e'. findById (getAllVideos (db_after_scan sample_env False [lost_file] lost_db)) ''p1'' = Some e' \<and>
      notFound e' = Some False \<and> rating e' = rating lost_video \<and> tags e' = tags lost_video \<and>
      title e' = title lost_video \<and> dateAdded e' = dateAdded lost_video \<and> hidden e' = Some True)"
proof -
  from scan_marks_missing_and_restores[OF lost_pre] obtain d' where
    r: "scanFiles sample_env False [lost_file] lost_db = Inr (d', videosForThumbGen sample_env [lost_file] lost_db)"
    and a: "\<And>e. e \<in> set (getAllVideos lost_db) \<Longrightarrow> relativePath e \<notin> set (foundFilePaths [lost_file]) \<Longrightarrow>
        findById (getAllVideos d') (id' e) = Some (e\<lparr>notFound := Some True\<rparr>)"
    and b: "\<And>e f. e \<in> set (getAllVideos lost_db) \<Longrightarrow> f \<in> set (fileEntries [lost_file]) \<Longrightarrow>
        webkitRelativePath f = relativePath e \<and> truthy (notFound e) \<Longrightarrow>
        (\<exists>e'. findById (getAllVideos d') (id' e) = Some e' \<and> notFound e' = Some False \<and>
              id' e' = id' e \<and> relativePath e' = relativePath e \<and> rating e' = rating e \<and>
              seen e' = seen e \<and> tags e' = tags e \<and> hearted e' = hearted e \<and>
              truthy (deleted e') = truthy (deleted e) \<and> title e' = title e \<and>
              currentTime e' = currentTime e \<and> timesOpened e' = timesOpened e \<and>
              (dateAdded e \<noteq> 0 \<longrightarrow> dateAdded e' = dateAdded e) \<and>
              hidden e' = Some (truthy (hidden e) \<or> isJpgName (file_name f)))"
    by blast
  have d': "db_after_scan sample_env False [lost_file] lost_db = d'" by (simp add: db_after_scan_def r)
  have "findById (getAllVideos d') (id' sample_video) = Some (sample_video\<lparr>notFound := Some True\<rparr>)"
    by (rule a) (simp_all add: lost_loaded lost_entries sample_video_def)
  then have 1: "findById (getAllVideos d') ''v1'' = Some (sample_video\<lparr>notFound := Some True\<rparr>)"
    by (simp add: sample_video_def)
  have "\<exists>e'. findById (getAllVideos d') (id' lost_video) = Some e' \<and> notFound e' = Some False \<and>
              id' e' = id' lost_video \<and> relativePath e' = relativePath lost_video \<and> rating e' = rating lost_video \<and>
              seen e' = seen lost_video \<and> tags e' = tags lost_video \<and> hearted e' = hearted lost_video \<and>
              truthy (deleted e') = truthy (deleted lost_video) \<and> title e' = title lost_video \<and>
              currentTime e' = currentTime lost_video \<and> timesOpened e' = timesOpened lost_video \<and>
              (dateAdded lost_video \<noteq> 0 \<longrightarrow> dateAdded e' = dateAdded lost_video) \<and>
              hidden e' = Some (truthy (hidden lost_video) \<or> isJpgName (file_name lost_file))"
  proof (rule b)
    show "lost_video \<in> set (getAllVideos lost_db)" by (simp add: lost_loaded)
    show "lost_file \<in> set (fileEntries [lost_file])" by (simp add: lost_entries)
    show "webkitRelativePath lost_file = relativePath lost_video \<and> truthy (notFound lost_video)"
      by (simp add: lost_file_def jpg_file_def lost_video_def jpg_video_def truthy_def)
  qed
  moreover have "id' lost_video = ''p1''" "dateAdded lost_video \<noteq> 0" "isJpgName (file_name lost_file)"
    by (simp_all add: lost_video_def jpg_video_def sample_video_def lost_file_def jpg_file_def jpg_name)
  ultimately have 2: "\<exists>e'. findById (getAllVideos d') ''p1'' = Some e' \<and>
      notFound e' = Some False \<and> rating e' = rating lost_video \<and> tags e' = tags lost_video \<and>
      title e' = title lost_video \<and> dateAdded e' = dateAdded lost_video \<and> hidden e' = Some True"
    by auto
  from lost_pre 1 2 show ?thesis unfolding d' by blast
qed

lemma videoMetadata_new: "videoMetadata (newVideoData ex u n f) = newVideoData ex u n f"
  by (simp add: videoMetadata_def newVideoData_def)

lemma or_null_idem: "or_null (or_null x) = or_null x"
  by (simp add: or_null_def split: option.splits)

lemma newVideoData_fix:
  assumes "case ex of None \<Rightarrow> u1 \<noteq> [] | Some e \<Rightarrow> id' e \<noteq> []" "n1 \<noteq> 0"
  shows "newVideoData (Some (applyVideoDefaults (newVideoData ex u1 n1 f))) u2 n2 f
           = newVideoData ex u1 n1 f"
proof (cases ex)
  case None
  then show ?thesis using assms
    by (simp add: newVideoData_def applyVideoDefaults_def or_string_def or_num_def or_false_def
        truthy_def or_null_def)
next
  case (Some e)
  then show ?thesis using assms
    by (simp add: newVideoData_def applyVideoDefaults_def or_string_def or_false_def
        truthy_def or_null_idem)
       (simp add: or_num_def)
qed

lemma store_put_present:
  assumes "w \<in> set s" "distinct (map id' s)" "distinct (map relativePath s)"
  shows "store_put w s = Some s"
proof -
  have nc: "\<not> index_conflict s w"
    using path_eq_in_distinct[OF assms(3) _ assms(1)] by (auto simp: index_conflict_def)
  have "map (\<lambda>r. if id' r = id' w then w else r) s = s"
    using id_eq_in_distinct[OF assms(2) _ assms(1)] by (intro map_idI) auto
  then show ?thesis using nc assms(1) by (simp add: store_put_def)
qed

lemma put_all_present:
  assumes "\<forall>w\<in>set ws. w \<in> set s" "distinct (map id' s)" "distinct (map relativePath s)"
  shows "put_all ws s = Some s"
  using assms(1)
proof (induction ws)
  case Nil
  then show ?case by simp
next
  case (Cons w ws)
  then show ?case using store_put_present[OF _ assms(2,3), of w] by simp
qed

lemma pre_env:
  assumes "scan_pre env files d"
  shows "randomUUID env i \<noteq> []" "Date_now env i \<noteq> 0" "distinct (foundFilePaths files)"
    "wf_store (VIDEOS d)"
  using assms by (simp_all add: scan_pre_def fresh_env_def)

text \<open>The store a pass leaves: every observed path has a record, a record whose path
  was not observed is marked, and a record that a further pass over the same files would
  rewrite is the record that pass would write.\<close>

lemma first_pass_store:
  assumes pre: "scan_pre env files d"
  shows "\<exists>S1. scanFiles env False files d = Inr (d\<lparr>VIDEOS := S1\<rparr>, videosForThumbGen env files d) \<and>
           distinct (map id' S1) \<and> distinct (map relativePath S1) \<and>
           (\<forall>r1\<in>set S1. relativePath r1 \<notin> set (foundFilePaths files) \<longrightarrow>
                truthy (notFound (applyVideoDefaults r1))) \<and>
           (\<forall>r1\<in>set S1. \<forall>k<length (fileEntries files).
                relativePath r1 = webkitRelativePath (fileEntries files ! k) \<and>
                needsUpdate (Some (applyVideoDefaults r1)) (MAIN_THUMBNAILS d) (fileEntries files ! k) \<longrightarrow>
                (\<forall>u n. newVideoData (Some (applyVideoDefaults r1)) u n (fileEntries files ! k) = r1)) \<and>
           (\<forall>k<length (fileEntries files).
                \<exists>r1\<in>set S1. relativePath r1 = webkitRelativePath (fileEntries files ! k))"
proof -
  let ?P = "videosToBatchUpdate env files d"
  let ?F = "fileEntries files"
  from scan_commits[OF pre] obtain S1 where
    res: "scanFiles env False files d = Inr (d\<lparr>VIDEOS := S1\<rparr>, videosForThumbGen env files d)"
    and d1: "distinct (map id' S1)" and p1: "distinct (map relativePath S1)"
    and all: "\<And>w. w \<in> set ?P \<Longrightarrow> videoMetadata w \<in> set S1"
    and keep: "\<And>r. r \<in> set (VIDEOS d) \<Longrightarrow> (\<forall>w\<in>set ?P. id' w \<noteq> id' r) \<Longrightarrow> r \<in> set S1"
    and clos: "\<And>r'. r' \<in> set S1 \<Longrightarrow> r' \<in> set (VIDEOS d) \<or> r' \<in> videoMetadata ` set ?P"
    by blast
  note L = pre_loaded[OF pre]
  note E = pre_env[OF pre]
  have stable: "(relativePath r1 \<notin> set (foundFilePaths files) \<longrightarrow> truthy (notFound (applyVideoDefaults r1))) \<and>
      (\<forall>k<length ?F. relativePath r1 = webkitRelativePath (?F ! k) \<and>
                needsUpdate (Some (applyVideoDefaults r1)) (MAIN_THUMBNAILS d) (?F ! k) \<longrightarrow>
                (\<forall>u n. newVideoData (Some (applyVideoDefaults r1)) u n (?F ! k) = r1))"
    if r1: "r1 \<in> set S1" for r1
  proof (cases "\<exists>w\<in>set ?P. id' w = id' r1")
    case True
    then obtain w where w: "w \<in> set ?P" "id' w = id' r1" by blast
    have rw: "r1 = videoMetadata w"
      using id_eq_in_distinct[OF d1 r1 all[OF w(1)]] w(2) by (simp add: metadata_fields)
    from plan_cases[OF w(1)] show ?thesis
    proof (elim disjE exE)
      fix j assume n: "is_new env files d w j"
      then have j: "j < length ?F" and wj: "w = newVideoData None (randomUUID env j) (Date_now env j) (?F ! j)"
        by (simp_all add: is_new_def)
      have r1': "r1 = newVideoData None (randomUUID env j) (Date_now env j) (?F ! j)"
        using rw wj by (simp add: videoMetadata_new)
      have pth: "relativePath r1 = webkitRelativePath (?F ! j)" using r1' by (simp add: newVideoData_def)
      have "newVideoData (Some (applyVideoDefaults r1)) u n (?F ! k) = r1"
        if "k < length ?F" "relativePath r1 = webkitRelativePath (?F ! k)" for k u n
      proof -
        have "k = j" using entry_path_inj[OF E(3) that(1) j] that(2) pth by simp
        then show ?thesis unfolding r1' by (simp only:) (rule newVideoData_fix, simp_all add: E)
      qed
      moreover have "relativePath r1 \<in> set (foundFilePaths files)" using pth entry_path_found[OF j] by simp
      ultimately show ?thesis by blast
    next
      fix j x assume n: "is_upd env files d w j x"
      then have j: "j < length ?F" and wj: "w = newVideoData (Some x) (randomUUID env j) (Date_now env j) (?F ! j)"
        by (simp_all add: is_upd_def)
      have x: "x \<in> set (getAllVideos d)" by (rule upd_facts(1)[OF n E(4)])
      have r1': "r1 = newVideoData (Some x) (randomUUID env j) (Date_now env j) (?F ! j)"
        using rw wj by (simp add: videoMetadata_new)
      have pth: "relativePath r1 = webkitRelativePath (?F ! j)" using r1' by (simp add: newVideoData_def)
      have "newVideoData (Some (applyVideoDefaults r1)) u n (?F ! k) = r1"
        if "k < length ?F" "relativePath r1 = webkitRelativePath (?F ! k)" for k u n
      proof -
        have "k = j" using entry_path_inj[OF E(3) that(1) j] that(2) pth by simp
        then show ?thesis unfolding r1' by (simp only:) (rule newVideoData_fix, simp_all add: E L(4)[OF x])
      qed
      moreover have "relativePath r1 \<in> set (foundFilePaths files)" using pth entry_path_found[OF j] by simp
      ultimately show ?thesis by blast
    next
      fix x assume n: "is_nf files d w x"
      have "relativePath r1 \<notin> set (foundFilePaths files)"
        using nf_facts(4)[OF n] rw by (simp add: metadata_fields)
      moreover have "truthy (notFound (applyVideoDefaults r1))"
        using nf_facts(5)[OF n] rw by (simp add: applyVideoDefaults_def videoMetadata_def or_false_def truthy_def)
      ultimately show ?thesis using entry_path_found by metis
    qed
  next
    case False
    then have nw: "\<forall>w\<in>set ?P. id' w \<noteq> id' r1" by blast
    have rS: "r1 \<in> set (VIDEOS d)"
    proof -
      from clos[OF r1] show ?thesis
      proof
        assume "r1 \<in> videoMetadata ` set ?P"
        then obtain w where "w \<in> set ?P" "r1 = videoMetadata w" by blast
        then show ?thesis using nw by (auto simp: metadata_fields)
      qed
    qed
    let ?x = "applyVideoDefaults r1"
    have x: "?x \<in> set (getAllVideos d)" using rS by (simp add: getAllVideos_def)
    have i: "truthy (notFound ?x)" if "relativePath r1 \<notin> set (foundFilePaths files)"
    proof (rule ccontr)
      assume "\<not> truthy (notFound ?x)"
      from plan_has_nf[OF x _ this, of files env] that
      have "?x\<lparr>notFound := Some True\<rparr> \<in> set ?P" by (simp add: loaded_fields)
      then show False using nw by (auto simp: loaded_fields)
    qed
    have ii: "\<not> needsUpdate (Some ?x) (MAIN_THUMBNAILS d) (?F ! k)"
      if k: "k < length ?F" and pk: "relativePath r1 = webkitRelativePath (?F ! k)" for k
    proof
      assume nu: "needsUpdate (Some ?x) (MAIN_THUMBNAILS d) (?F ! k)"
      have ex: "existingVideosMap (getAllVideos d) (webkitRelativePath (?F ! k)) = Some ?x"
        using existing_lookup[OF L(2) x] pk by (simp add: loaded_fields)
      have "newVideoData (Some ?x) (randomUUID env k) (Date_now env k) (?F ! k) \<in> set ?P"
        using plan_has_new_upd[OF k, of d env] nu unfolding ex by simp
      moreover have "id' (newVideoData (Some ?x) (randomUUID env k) (Date_now env k) (?F ! k)) = id' r1"
        using L(4)[OF x] by (simp add: newVideoData_def or_string_def loaded_fields)
      ultimately show False using nw by blast
    qed
    from i ii show ?thesis by blast
  qed
  have cover: "\<exists>r1\<in>set S1. relativePath r1 = webkitRelativePath (?F ! k)" if k: "k < length ?F" for k
  proof (cases "existingVideosMap (getAllVideos d) (webkitRelativePath (?F ! k))")
    case None
    have "newVideoData None (randomUUID env k) (Date_now env k) (?F ! k) \<in> set ?P"
      using plan_has_new_upd[OF k, of d env] unfolding None by (simp add: needsUpdate_def)
    from all[OF this]
    have "videoMetadata (newVideoData None (randomUUID env k) (Date_now env k) (?F ! k)) \<in> set S1" .
    moreover have "relativePath (videoMetadata (newVideoData None (randomUUID env k) (Date_now env k) (?F ! k)))
        = webkitRelativePath (?F ! k)"
      by (simp add: metadata_fields newVideoData_def)
    ultimately show ?thesis by blast
  next
    case (Some x)
    from existingVideosMap_Some[OF Some] have x: "x \<in> set (getAllVideos d)"
      and px: "relativePath x = webkitRelativePath (?F ! k)" by simp_all
    show ?thesis
    proof (cases "needsUpdate (Some x) (MAIN_THUMBNAILS d) (?F ! k)")
      case True
      have "newVideoData (Some x) (randomUUID env k) (Date_now env k) (?F ! k) \<in> set ?P"
        using plan_has_new_upd[OF k, of d env] True unfolding Some by simp
      from all[OF this]
      have "videoMetadata (newVideoData (Some x) (randomUUID env k) (Date_now env k) (?F ! k)) \<in> set S1" .
      moreover have "relativePath (videoMetadata (newVideoData (Some x) (randomUUID env k) (Date_now env k) (?F ! k)))
          = webkitRelativePath (?F ! k)"
        by (simp add: metadata_fields newVideoData_def)
      ultimately show ?thesis by blast
    next
      case False
      from x obtain r where r: "r \<in> set (VIDEOS d)" "x = applyVideoDefaults r"
        by (auto simp: getAllVideos_def)
      have ir: "id' r = id' x" "relativePath r = relativePath x" using r(2) by (simp_all add: loaded_fields)
      have "id' w \<noteq> id' r" if w: "w \<in> set ?P" for w
      proof
        assume iw: "id' w = id' r"
        from plan_cases[OF w] show False
        proof (elim disjE exE)
          fix j assume "is_new env files d w j"
          then show False using new_facts(1) L(3)[OF x, of j] iw ir by simp
        next
          fix j y assume u: "is_upd env files d w j y"
          have yx: "y = x"
            using id_eq_in_distinct[OF L(1) upd_facts(1)[OF u E(4)] x] upd_facts(2)[OF u E(4)] iw ir by simp
          have j: "j < length ?F" using u by (simp add: is_upd_def)
          have "j = k" using entry_path_inj[OF E(3) j k] upd_facts(4)[OF u E(4)] yx px by simp
          then show False using u yx False by (simp add: is_upd_def)
        next
          fix y assume n: "is_nf files d w y"
          have "y = x"
            using id_eq_in_distinct[OF L(1) nf_facts(1)[OF n] x] nf_facts(2)[OF n] iw ir by simp
          then show False using n px entry_path_found[OF k] by (simp add: is_nf_def)
        qed
      qed
      then have "r \<in> set S1" using keep[OF r(1)] by blast
      then show ?thesis using ir px by (intro bexI[of _ r]) simp_all
    qed
  qed
  from res d1 p1 stable cover show ?thesis by blast
qed

lemma second_pass_plan:
  assumes d1: "distinct (map relativePath S1)"
    and nf: "\<forall>r1\<in>set S1. relativePath r1 \<notin> set (foundFilePaths files) \<longrightarrow>
                truthy (notFound (applyVideoDefaults r1))"
    and fx: "\<forall>r1\<in>set S1. \<forall>k<length (fileEntries files).
                relativePath r1 = webkitRelativePath (fileEntries files ! k) \<and>
                needsUpdate (Some (applyVideoDefaults r1)) (MAIN_THUMBNAILS d) (fileEntries files ! k) \<longrightarrow>
                (\<forall>u n. newVideoData (Some (applyVideoDefaults r1)) u n (fileEntries files ! k) = r1)"
    and cv: "\<forall>k<length (fileEntries files).
                \<exists>r1\<in>set S1. relativePath r1 = webkitRelativePath (fileEntries files ! k)"
    and w: "w \<in> set (videosToBatchUpdate env2 files (d\<lparr>VIDEOS := S1\<rparr>))"
  shows "w \<in> set S1 \<and> videoMetadata w = w"
proof -
  let ?d1 = "d\<lparr>VIDEOS := S1\<rparr>"
  let ?F = "fileEntries files"
  have X1: "getAllVideos ?d1 = map applyVideoDefaults S1" by (simp add: getAllVideos_def)
  have p1: "distinct (map relativePath (getAllVideos ?d1))" using d1 by (simp add: loaded_paths)
  from plan_mem[OF w] show ?thesis
  proof (elim disjE exE bexE conjE)
    fix k
    assume k: "k < length ?F"
      and nu: "needsUpdate (existingVideosMap (getAllVideos ?d1) (webkitRelativePath (?F ! k)))
                 (MAIN_THUMBNAILS ?d1) (?F ! k)"
      and wk: "w = newVideoData (existingVideosMap (getAllVideos ?d1) (webkitRelativePath (?F ! k)))
                 (randomUUID env2 k) (Date_now env2 k) (?F ! k)"
    from cv k obtain r1 where r1: "r1 \<in> set S1" "relativePath r1 = webkitRelativePath (?F ! k)" by blast
    have "applyVideoDefaults r1 \<in> set (getAllVideos ?d1)" using r1(1) by (simp add: X1)
    from existing_lookup[OF p1 this]
    have ex: "existingVideosMap (getAllVideos ?d1) (webkitRelativePath (?F ! k)) = Some (applyVideoDefaults r1)"
      using r1(2) by (simp add: loaded_fields)
    have "needsUpdate (Some (applyVideoDefaults r1)) (MAIN_THUMBNAILS d) (?F ! k)"
      using nu unfolding ex by simp
    with fx r1 k have "newVideoData (Some (applyVideoDefaults r1)) (randomUUID env2 k) (Date_now env2 k) (?F ! k) = r1"
      by blast
    then have "w = r1" unfolding wk ex .
    moreover have "videoMetadata w = w" unfolding wk by (rule videoMetadata_new)
    ultimately show ?thesis using r1(1) by simp
  next
    fix x assume x: "x \<in> set (getAllVideos ?d1)" "relativePath x \<notin> set (foundFilePaths files)"
      "\<not> truthy (notFound x)"
    from x(1) obtain r1 where "r1 \<in> set S1" "x = applyVideoDefaults r1" by (auto simp: X1)
    then show ?thesis using nf x(2,3) by (auto simp: loaded_fields)
  qed
qed

text \<open>
  Claim C3. A pass that is not cancelled runs on a well-formed store, over observed
  files with distinct paths, with fresh identifiers and a nonzero clock; it commits a
  database \<open>d1\<close>. A second pass over the same files on \<open>d1\<close>, whatever identifiers
  and clock it draws, writes only records that \<open>d1\<close> already holds under the same
  identifier, marks no record as not found, and commits \<open>d1\<close> itself.
\<close>

theorem scan_twice_writes_nothing_new:
  assumes pre: "scan_pre env files d"
  shows "\<exists>d1. scanFiles env False files d = Inr (d1, videosForThumbGen env files d) \<and>
           (\<forall>w\<in>set (videosToBatchUpdate env2 files d1).
               \<exists>r\<in>set (VIDEOS d1). id' r = id' w \<and> r = videoMetadata w) \<and>
           scanFiles env2 False files d1 = Inr (d1, videosForThumbGen env2 files d1)"
proof -
  from first_pass_store[OF pre] obtain S1 where
    res: "scanFiles env False files d = Inr (d\<lparr>VIDEOS := S1\<rparr>, videosForThumbGen env files d)"
    and i1: "distinct (map id' S1)" and p1: "distinct (map relativePath S1)"
    and nf: "\<forall>r1\<in>set S1. relativePath r1 \<notin> set (foundFilePaths files) \<longrightarrow>
                truthy (notFound (applyVideoDefaults r1))"
    and fx: "\<forall>r1\<in>set S1. \<forall>k<length (fileEntries files).
                relativePath r1 = webkitRelativePath (fileEntries files ! k) \<and>
                needsUpdate (Some (applyVideoDefaults r1)) (MAIN_THUMBNAILS d) (fileEntries files ! k) \<longrightarrow>
                (\<forall>u n. newVideoData (Some (applyVideoDefaults r1)) u n (fileEntries files ! k) = r1)"
    and cv: "\<forall>k<length (fileEntries files).
                \<exists>r1\<in>set S1. relativePath r1 = webkitRelativePath (fileEntries files ! k)"
    by blast
  let ?d1 = "d\<lparr>VIDEOS := S1\<rparr>"
  let ?P2 = "videosToBatchUpdate env2 files ?d1"
  have pl: "w \<in> set S1 \<and> videoMetadata w = w" if "w \<in> set ?P2" for w
    by (rule second_pass_plan[OF p1 nf fx cv that])
  then have a: "\<forall>w\<in>set ?P2. \<exists>r\<in>set (VIDEOS ?d1). id' r = id' w \<and> r = videoMetadata w"
    by simp
  have "\<forall>v\<in>set (map videoMetadata ?P2). v \<in> set S1" using pl by auto
  from put_all_present[OF this i1 p1]
  have "batchUpdateVideos ?P2 ?d1 = Inr ?d1" by (simp add: batchUpdateVideos_def)
  then have b: "scanFiles env2 False files ?d1 = Inr (?d1, videosForThumbGen env2 files ?d1)"
    by (simp add: scanFiles_def)
  from res a b show ?thesis by blast
qed

lemma mp4_name: "isNativelyPlayable ''b.mp4''" "\<not> isJpgName ''b.mp4''"
  by (simp_all add: isJpgName_def isNativelyPlayable_def endsWith_def toLowerCase_def playableExtensions_def)

lemma sample_loaded: "getAllVideos sample_db = [sample_video]"
  by (simp add: getAllVideos_def sample_db_def sample_video_def applyVideoDefaults_def
      or_num_def or_false_def truthy_def or_null_string_def)

lemma new_entries: "fileEntries [new_file] = [new_file]" "foundFilePaths [new_file] = [''lib/b.mp4'']"
  by (simp_all add: fileEntries_def foundFilePaths_def new_file_def)

lemma new_plan:
  "videosToBatchUpdate sample_env [new_file] sample_db = [new_video, sample_video\<lparr>notFound := Some True\<rparr>]"
  by (simp add: videosToBatchUpdate_def sample_loaded new_entries)
     (simp add: new_file_def new_video_def sample_env_def
      existingVideosMap_def scanEntry_def newVideoData_def markNotFound_def mp4_name
      sample_video_def truthy_def Let_def)

lemma new_put:
  "put_all [videoMetadata new_video, videoMetadata (sample_video\<lparr>notFound := Some True\<rparr>)] (VIDEOS sample_db)
     = Some [sample_video\<lparr>notFound := Some True\<rparr>, new_video]"
  by (simp add: videoMetadata_def store_put_def index_conflict_def sample_db_def new_video_def sample_video_def)

lemma new_after:
  "db_after_scan sample_env False [new_file] sample_db
     = sample_db\<lparr>VIDEOS := [sample_video\<lparr>notFound := Some True\<rparr>, new_video]\<rparr>"
  by (simp add: db_after_scan_def scanFiles_def new_plan batchUpdateVideos_def new_put del: put_all.simps)

lemma new_loaded:
  "getAllVideos (sample_db\<lparr>VIDEOS := [sample_video\<lparr>notFound := Some True\<rparr>, new_video]\<rparr>)
     = [sample_video\<lparr>notFound := Some True\<rparr>, new_video]"
  by (simp add: getAllVideos_def sample_video_def new_video_def applyVideoDefaults_def
      or_num_def or_false_def truthy_def or_null_string_def)

lemma new_plan2:
  "videosToBatchUpdate sample_env [new_file]
     (sample_db\<lparr>VIDEOS := [sample_video\<lparr>notFound := Some True\<rparr>, new_video]\<rparr>) = [new_video]"
  by (simp add: videosToBatchUpdate_def new_loaded new_entries)
     (simp add: new_file_def new_video_def sample_env_def sample_db_def getAllMainThumbnails_def
      existingVideosMap_def scanEntry_def newVideoData_def markNotFound_def mp4_name
      sample_video_def truthy_def or_num_def or_false_def or_null_def or_string_def Let_def)

lemma new_pre: "scan_pre sample_env [new_file] sample_db"
  unfolding scan_pre_def fresh_env_def wf_store_def
  by (simp add: sample_env_fresh new_entries)
     (auto simp: sample_db_def sample_video_def sample_env_def)

text \<open>
  The library of \<open>lib/a.mp4\<close> and the observed file \<open>lib/b.mp4\<close>: the first pass
  creates a record for the file and marks \<open>lib/a.mp4\<close>; the second pass rewrites the
  new record, which has no thumbnail yet, with the content it has.
\<close>

theorem scan_twice_writes_nothing_new_witness:
  "scan_pre sample_env [new_file] sample_db \<and>
   videosToBatchUpdate sample_env [new_file] (db_after_scan sample_env False [new_file] sample_db) = [new_video] \<and>
   new_video \<in> set (VIDEOS (db_after_scan sample_env False [new_file] sample_db)) \<and>
   scanFiles sample_env False [new_file] (db_after_scan sample_env False [new_file] sample_db)
     = Inr (db_after_scan sample_env False [new_file] sample_db,
            videosForThumbGen sample_env [new_file] (db_after_scan sample_env False [new_file] sample_db))"
proof -
  let ?d1 = "db_after_scan sample_env False [new_file] sample_db"
  from scan_twice_writes_nothing_new[OF new_pre, of sample_env] obtain d1 where
    r: "scanFiles sample_env False [new_file] sample_db = Inr (d1, videosForThumbGen sample_env [new_file] sample_db)"
    and a: "\<forall>w\<in>set (videosToBatchUpdate sample_env [new_file] d1).
               \<exists>r\<in>set (VIDEOS d1). id' r = id' w \<and> r = videoMetadata w"
    and b: "scanFiles sample_env False [new_file] d1 = Inr (d1, videosForThumbGen sample_env [new_file] d1)"
    by blast
  have d1: "?d1 = d1" by (simp add: db_after_scan_def r)
  have p2: "videosToBatchUpdate sample_env [new_file] d1 = [new_video]"
    using new_plan2 new_after d1 by simp
  have "videoMetadata new_video = new_video" by (simp add: videoMetadata_def new_video_def)
  with a p2 have "new_video \<in> set (VIDEOS d1)" by auto
  with new_pre p2 b show ?thesis unfolding d1 by blast
qed

end
